theory Spec2Isabelle
  imports Main "HOL-Library.Word"
begin

unbundle bit_operations_syntax

section \<open>Machine types and the allocator\<close>

text \<open>
  The codec of \<^verbatim>\<open>png.h\<close> is modelled on an LP64 platform: \<^verbatim>\<open>uint8_t\<close> is an
  \<open>8 word\<close>, \<^verbatim>\<open>uint32_t\<close> a \<open>32 word\<close>, and \<^verbatim>\<open>int\<close> a \<open>32 word\<close> read as two's
  complement with \<open>sint\<close>, so that \<open>+\<close> and \<open>*\<close> on it wrap around as the compiled code
  does. A \<^verbatim>\<open>size_t\<close> is a natural number below \<open>2 ^ 64\<close>; the conversion of an
  \<^verbatim>\<open>int\<close> to \<^verbatim>\<open>size_t\<close> adds \<open>2 ^ 64\<close> to a negative value. Sizes and positions inside one buffer
  (\<^verbatim>\<open>pos\<close>, \<^verbatim>\<open>out_pos\<close>, \<^verbatim>\<open>idat_len\<close>) are sums of at most three terms that are each
  bounded by the length of an object in memory, so they never reach \<open>2 ^ 64\<close> and are
  modelled on \<open>nat\<close> without a modulus.
\<close>

type_synonym byte = "8 word"
type_synonym u32 = "32 word"
type_synonym c_int = "32 word"

definition size_t_of_int :: "c_int \<Rightarrow> nat" where
  "size_t_of_int x = (if sint x < 0 then nat (2 ^ 64 + sint x) else nat (sint x))"

text \<open>
  \<^verbatim>\<open>malloc\<close>, \<^verbatim>\<open>calloc\<close> and \<^verbatim>\<open>realloc\<close> refuse a request above \<^verbatim>\<open>PTRDIFF_MAX\<close>, which is
  where every negative \<^verbatim>\<open>int\<close> lands once converted to \<^verbatim>\<open>size_t\<close>. A request within
  the limit is taken to succeed (memory exhaustion is outside the model), also a request
  of zero bytes, for which glibc returns a unique non-null pointer.
\<close>

definition malloc_ok :: "nat \<Rightarrow> bool" where
  "malloc_ok n = (n \<le> 2 ^ 63 - 1)"

text \<open>
  What a call does: it returns a value (a null pointer is the value \<open>None\<close>), or it
  accesses memory outside an object, which is undefined behaviour in C.
\<close>

datatype 'a outcome = Returns 'a | Undefined

section \<open>Image structure and management\<close>

record png_image =
  width :: c_int
  height :: c_int
  channels :: c_int
  data :: "byte list"

text \<open>\<^verbatim>\<open>png_create\<close>: the buffer comes from \<^verbatim>\<open>calloc(width * height * channels, 1)\<close>,
  the product taken in \<^verbatim>\<open>int\<close>.\<close>

definition png_create :: "c_int \<Rightarrow> c_int \<Rightarrow> c_int \<Rightarrow> png_image option" where
  "png_create w h c =
     (let n = size_t_of_int (w * h * c)
      in if malloc_ok n
         then Some \<lparr>width = w, height = h, channels = c, data = replicate n 0\<rparr>
         else None)"

text \<open>\<^verbatim>\<open>memcpy(dst, src, n)\<close> into the start of \<open>dst\<close>; reading or writing past the end of
  either buffer is undefined.\<close>

definition memcpy :: "byte list \<Rightarrow> byte list \<Rightarrow> nat \<Rightarrow> byte list outcome" where
  "memcpy dst src n =
     (if n \<le> length src \<and> n \<le> length dst then Returns (take n src @ drop n dst)
      else Undefined)"

definition png_clone :: "png_image option \<Rightarrow> png_image option outcome" where
  "png_clone img =
     (case img of
        None \<Rightarrow> Returns None
      | Some i \<Rightarrow>
          (case png_create (width i) (height i) (channels i) of
             None \<Rightarrow> Returns None
           | Some clone \<Rightarrow>
               (case memcpy (data clone) (data i)
                       (size_t_of_int (width i * height i * channels i)) of
                  Undefined \<Rightarrow> Undefined
                | Returns d \<Rightarrow> Returns (Some (clone\<lparr>data := d\<rparr>)))))"

text \<open>
  \<^verbatim>\<open>png_free\<close> is the one function whose whole effect is on the allocator. The heap maps
  the address of each live image to the image (the structure together with the buffer it
  owns); an image pointer is an address or null. Freeing an address that is not live is
  undefined.
\<close>

type_synonym heap = "nat \<rightharpoonup> png_image"

definition png_free :: "nat option \<Rightarrow> heap \<Rightarrow> heap outcome" where
  "png_free img hp =
     (case img of
        None \<Rightarrow> Returns hp
      | Some p \<Rightarrow> (if p \<in> dom hp then Returns (hp(p := None)) else Undefined))"

section \<open>Checksums\<close>

text \<open>The table \<^verbatim>\<open>png_crc_table\<close> is filled on first use; entry \<open>n\<close> is the value
  \<^verbatim>\<open>png_make_crc_table\<close> stores there.\<close>

definition crc_bit_step :: "u32 \<Rightarrow> u32" where
  "crc_bit_step c = (if c AND 1 \<noteq> 0 then 0xedb88320 XOR drop_bit 1 c else drop_bit 1 c)"

definition png_crc_table :: "nat \<Rightarrow> u32" where
  "png_crc_table n = fold (\<lambda>k c. crc_bit_step c) [0..<8] (of_nat n)"

definition png_update_crc :: "u32 \<Rightarrow> byte list \<Rightarrow> u32" where
  "png_update_crc crc buf =
     fold (\<lambda>b c. png_crc_table (unat ((c XOR ucast b) AND 0xff)) XOR drop_bit 8 c) buf crc"

definition png_crc :: "byte list \<Rightarrow> u32" where
  "png_crc buf = png_update_crc 0xffffffff buf XOR 0xffffffff"

definition adler_step :: "byte \<Rightarrow> u32 \<times> u32 \<Rightarrow> u32 \<times> u32" where
  "adler_step d ab =
     (let a = (fst ab + ucast d) mod 65521; b = (snd ab + a) mod 65521 in (a, b))"

definition png_adler32 :: "byte list \<Rightarrow> u32" where
  "png_adler32 buf = (let ab = fold adler_step buf (1, 0) in push_bit 16 (snd ab) OR fst ab)"

section \<open>Deflate store mode and chunk writing\<close>

text \<open>The four bytes of a 32-bit value, most significant first:
  \<^verbatim>\<open>(x >> 24) & 0xff, (x >> 16) & 0xff, (x >> 8) & 0xff, x & 0xff\<close>.\<close>

definition be32 :: "u32 \<Rightarrow> byte list" where
  "be32 x = [ucast (drop_bit 24 x), ucast (drop_bit 16 x), ucast (drop_bit 8 x), ucast x]"

text \<open>One stored block per iteration of the \<^verbatim>\<open>while (remaining > 0)\<close> loop:
  the header byte, \<^verbatim>\<open>LEN\<close> and \<^verbatim>\<open>NLEN\<close> in little-endian order, then the bytes.\<close>

function store_blocks :: "byte list \<Rightarrow> byte list" where
  "store_blocks src =
     (let remaining = length src
      in if remaining > 0 then
           (let block_len = (if remaining > 65535 then 65535 else remaining);
                is_final = (if remaining \<le> 65535 then 1 else 0);
                bl = (of_nat block_len :: 64 word)
            in [is_final,
                ucast (bl AND 0xff),
                ucast (drop_bit 8 bl AND 0xff),
                ucast (NOT bl AND 0xff),
                ucast (drop_bit 8 (NOT bl) AND 0xff)]
               @ take block_len src @ store_blocks (drop block_len src))
         else [])"
  by pat_completeness auto
termination
  by (relation "measure length") (auto split: if_splits)

text \<open>
  \<^verbatim>\<open>png_deflate_store(data, len, &out_len)\<close>: \<open>None\<close> for the pointer \<open>data\<close> is null.
  The output buffer is requested first (a refusal returns null); then \<open>len\<close> bytes are
  read from \<open>data\<close>, which is undefined when \<open>data\<close> is null or shorter.
\<close>

definition png_deflate_store :: "byte list option \<Rightarrow> nat \<Rightarrow> byte list option outcome" where
  "png_deflate_store src len =
     (let max_block = 65535;
          num_blocks = ((len + max_block - 1) mod 2 ^ 64) div max_block;
          total = (2 + num_blocks * 5 + len + 4) mod 2 ^ 64
      in if \<not> malloc_ok total then Returns None
         else if len = 0 then Returns (Some ([0x78, 0x01] @ be32 (png_adler32 [])))
         else (case src of
                 None \<Rightarrow> Undefined
               | Some d \<Rightarrow>
                   if length d < len then Undefined
                   else Returns (Some ([0x78, 0x01] @ store_blocks (take len d)
                                       @ be32 (png_adler32 (take len d))))))"

text \<open>
  \<^verbatim>\<open>png_write_chunk(f, type, data, len)\<close>, the file being the bytes written to it so far.
  The payload is passed as a list (empty for the call with a null pointer and length 0).
  The length field holds the low 32 bits of \<open>len\<close>. The scratch buffer for the CRC is
  not checked for null.
\<close>

definition png_write_chunk :: "byte list \<Rightarrow> byte list \<Rightarrow> byte list \<Rightarrow> byte list outcome" where
  "png_write_chunk f ctype payload =
     (let len = length payload
      in if \<not> malloc_ok (4 + len) then Undefined
         else Returns (f @ be32 (of_nat len) @ ctype @ payload @ be32 (png_crc (ctype @ payload))))"

definition type_IHDR :: "byte list" where "type_IHDR = [0x49, 0x48, 0x44, 0x52]"
definition type_IDAT :: "byte list" where "type_IDAT = [0x49, 0x44, 0x41, 0x54]"
definition type_IEND :: "byte list" where "type_IEND = [0x49, 0x45, 0x4e, 0x44]"
definition type_tEXt :: "byte list" where "type_tEXt = [0x74, 0x45, 0x58, 0x74]"

text \<open>A C string is the list of its bytes before the terminating zero.\<close>

definition png_write_text_chunk :: "byte list \<Rightarrow> byte list \<Rightarrow> byte list \<Rightarrow> byte list outcome" where
  "png_write_text_chunk f keyword txt =
     (let data_len = length keyword + 1 + length txt
      in if \<not> malloc_ok data_len then Returns f
         else png_write_chunk f type_tEXt (keyword @ [0] @ txt))"

section \<open>PNG writing\<close>

definition signature :: "byte list" where
  "signature = [0x89, 0x50, 0x4e, 0x47, 0x0d, 0x0a, 0x1a, 0x0a]"

definition ihdr_bytes :: "png_image \<Rightarrow> byte list" where
  "ihdr_bytes img =
     be32 (width img) @ be32 (height img) @
     [8,
      if channels img = 4 then 6 else if channels img = 3 then 2
      else if channels img = 2 then 4 else 0,
      0, 0, 0]"

text \<open>
  The row loop of \<^verbatim>\<open>png_save_internal\<close>, from row \<open>y\<close> on, over the part of \<open>raw\<close> written
  so far. Row \<open>y\<close> goes to offset \<open>y * row_bytes\<close> (in \<^verbatim>\<open>size_t\<close>) of \<open>raw\<close> and is read
  at offset \<open>y * width * channels\<close> (in \<^verbatim>\<open>int\<close>) of the pixel buffer; the rows are
  written in order, so the write is in bounds and lands where the model appends it
  exactly when the offset is the length written so far and the row fits in \<open>raw_len\<close>.
  Anything else, like a read outside the pixel buffer, is undefined.
\<close>

function save_rows :: "png_image \<Rightarrow> nat \<Rightarrow> nat \<Rightarrow> nat \<Rightarrow> byte list \<Rightarrow> byte list outcome" where
  "save_rows img row_bytes raw_len y raw =
     (if int y < sint (height img) then
        (let off = (y * row_bytes) mod 2 ^ 64;
             src_off = sint (of_nat y * width img * channels img);
             n = size_t_of_int (width img * channels img)
         in if off = length raw \<and> off + 1 + n \<le> raw_len \<and>
               0 \<le> src_off \<and> nat src_off + n \<le> length (data img)
            then save_rows img row_bytes raw_len (Suc y)
                   (raw @ [0] @ take n (drop (nat src_off) (data img)))
            else Undefined)
      else Returns raw)"
  by pat_completeness auto
termination
  by (relation "measure (\<lambda>(img, rb, rl, y, raw). nat (sint (height img)) - y)") auto

text \<open>
  \<^verbatim>\<open>png_save_internal\<close> returns its status and the bytes of the file. The buffer \<open>raw\<close> is
  not checked for null, and what the rows do not write of it is indeterminate: the
  model is undefined when rows are written through a null \<open>raw\<close>, and when bytes of a
  non-null \<open>raw\<close> that no row wrote would be compressed.
\<close>

definition bind_outcome :: "'a outcome \<Rightarrow> ('a \<Rightarrow> 'b outcome) \<Rightarrow> 'b outcome" where
  "bind_outcome x f = (case x of Undefined \<Rightarrow> Undefined | Returns v \<Rightarrow> f v)"

definition png_save_internal ::
  "png_image \<Rightarrow> byte list \<Rightarrow> byte list option \<Rightarrow> byte list option \<Rightarrow> (int \<times> byte list) outcome" where
  "png_save_internal img f keyword txt =
     bind_outcome (png_write_chunk (f @ signature) type_IHDR (ihdr_bytes img)) (\<lambda>f1.
     bind_outcome (case (keyword, txt) of
                     (Some k, Some t) \<Rightarrow> png_write_text_chunk f1 k t
                   | _ \<Rightarrow> Returns f1) (\<lambda>f2.
     let row_bytes = size_t_of_int (1 + width img * channels img);
         raw_len = (size_t_of_int (height img) * row_bytes) mod 2 ^ 64
     in bind_outcome
          (if malloc_ok raw_len then
             bind_outcome (save_rows img row_bytes raw_len 0 []) (\<lambda>raw.
               if length raw = raw_len then Returns (Some raw) else Undefined)
           else if 0 < sint (height img) then Undefined
           else Returns None) (\<lambda>raw.
     bind_outcome (png_deflate_store raw raw_len) (\<lambda>compressed.
       case compressed of
         None \<Rightarrow> Returns (- 1, f2)
       | Some z \<Rightarrow>
           bind_outcome (png_write_chunk f2 type_IDAT z) (\<lambda>f3.
           bind_outcome (png_write_chunk f3 type_IEND []) (\<lambda>f4.
             Returns (0, f4)))))))"

text \<open>
  The file system: the content of each file, and the paths \<^verbatim>\<open>fopen(path, "wb")\<close> can
  open. A path is a C string or null.
\<close>

record filesystem =
  files :: "string \<rightharpoonup> byte list"
  can_write :: "string \<Rightarrow> bool"

definition png_save ::
  "png_image option \<Rightarrow> string option \<Rightarrow> filesystem \<Rightarrow> (int \<times> filesystem) outcome" where
  "png_save img path fs =
     (case (img, path) of
        (Some i, Some p) \<Rightarrow>
          if \<not> can_write fs p then Returns (- 1, fs)
          else bind_outcome (png_save_internal i [] None None) (\<lambda>(result, bytes).
                 Returns (result, fs\<lparr>files := (files fs)(p \<mapsto> bytes)\<rparr>))
      | _ \<Rightarrow> Returns (- 1, fs))"

definition png_save_with_text ::
  "png_image option \<Rightarrow> string option \<Rightarrow> byte list option \<Rightarrow> byte list option \<Rightarrow>
   filesystem \<Rightarrow> (int \<times> filesystem) outcome" where
  "png_save_with_text img path keyword txt fs =
     (case (img, path) of
        (Some i, Some p) \<Rightarrow>
          if \<not> can_write fs p then Returns (- 1, fs)
          else bind_outcome (png_save_internal i [] keyword txt) (\<lambda>(result, bytes).
                 Returns (result, fs\<lparr>files := (files fs)(p \<mapsto> bytes)\<rparr>))
      | _ \<Rightarrow> Returns (- 1, fs))"

section \<open>Inflate: the bit reader\<close>

text \<open>
  The bit stream borrows the deflate payload (\<open>bs_data\<close>, of length \<^verbatim>\<open>len\<close>). The field
  \<^verbatim>\<open>bitcount\<close> is an \<^verbatim>\<open>int\<close> that never goes negative. A function that returns 0 for
  failure and passes its result through a pointer returns \<open>None\<close> or the result with
  the stream it leaves.
\<close>

record png_bitstream =
  bs_data :: "byte list"
  bytepos :: nat
  bitbuf :: u32
  bitcount :: nat

function fill_loop :: "png_bitstream \<Rightarrow> nat \<Rightarrow> png_bitstream" where
  "fill_loop bs n =
     (if bitcount bs < n \<and> bytepos bs < length (bs_data bs) then
        fill_loop (bs\<lparr>bitbuf := bitbuf bs OR push_bit (bitcount bs) (ucast (bs_data bs ! bytepos bs)),
                     bytepos := bytepos bs + 1,
                     bitcount := bitcount bs + 8\<rparr>) n
      else bs)"
  by pat_completeness auto
termination
  by (relation "measure (\<lambda>(bs, n). length (bs_data bs) - bytepos bs)") auto

definition png_bitstream_fill :: "png_bitstream \<Rightarrow> nat \<Rightarrow> bool \<times> png_bitstream" where
  "png_bitstream_fill bs n = (let bs' = fill_loop bs n in (bitcount bs' \<ge> n, bs'))"

definition png_bitstream_get :: "png_bitstream \<Rightarrow> nat \<Rightarrow> (u32 \<times> png_bitstream) option" where
  "png_bitstream_get bs n =
     (if n = 0 then Some (0, bs)
      else (case png_bitstream_fill bs n of
              (ok, bs1) \<Rightarrow>
                if \<not> ok then None
                else Some (bitbuf bs1 AND (push_bit n 1 - 1),
                           bs1\<lparr>bitbuf := drop_bit n (bitbuf bs1),
                               bitcount := bitcount bs1 - n\<rparr>)))"

definition png_bitstream_align :: "png_bitstream \<Rightarrow> png_bitstream option" where
  "png_bitstream_align bs =
     (let skip = bitcount bs mod 8
      in if skip = 0 then Some bs else map_option snd (png_bitstream_get bs skip))"

fun read_bytes_loop :: "png_bitstream \<Rightarrow> nat \<Rightarrow> (byte list \<times> png_bitstream) option" where
  "read_bytes_loop bs 0 = Some ([], bs)"
| "read_bytes_loop bs (Suc k) =
     (case png_bitstream_get bs 8 of
        None \<Rightarrow> None
      | Some (v, bs1) \<Rightarrow>
          (case read_bytes_loop bs1 k of
             None \<Rightarrow> None
           | Some (vs, bs2) \<Rightarrow> Some (ucast v # vs, bs2)))"

definition png_bitstream_read_bytes ::
  "png_bitstream \<Rightarrow> nat \<Rightarrow> (byte list \<times> png_bitstream) option" where
  "png_bitstream_read_bytes bs len =
     (if bitcount bs = 0 then
        (if bytepos bs + len > length (bs_data bs) then None
         else Some (take len (drop (bytepos bs) (bs_data bs)), bs\<lparr>bytepos := bytepos bs + len\<rparr>))
      else read_bytes_loop bs len)"

section \<open>Inflate: Huffman tables\<close>

text \<open>
  The arrays \<^verbatim>\<open>count[16]\<close> and \<^verbatim>\<open>symbol[288]\<close> hold \<^verbatim>\<open>uint16_t\<close>; an increment is taken
  modulo \<open>2 ^ 16\<close>. Every caller builds from at most 288 lengths, so that \<^verbatim>\<open>symbol\<close> is
  never written past its end. \<^verbatim>\<open>left\<close> stays between 0 and \<open>2 ^ 15\<close>.
\<close>

record png_huffman =
  count :: "nat list"
  symbol :: "nat list"

fun count_lengths :: "byte list \<Rightarrow> nat list \<Rightarrow> nat list option" where
  "count_lengths [] cnt = Some cnt"
| "count_lengths (l # ls) cnt =
     (if unat l > 15 then None
      else count_lengths ls (cnt[unat l := (cnt ! unat l + 1) mod 65536]))"

fun check_left :: "nat list \<Rightarrow> nat list \<Rightarrow> int \<Rightarrow> bool" where
  "check_left cnt [] left = True"
| "check_left cnt (len # lens) left =
     (let left' = 2 * left - int (cnt ! len)
      in if left' < 0 then False else check_left cnt lens left')"

definition offs_step :: "nat list \<Rightarrow> nat \<Rightarrow> nat list \<Rightarrow> nat list" where
  "offs_step cnt len offs = offs[len + 1 := (offs ! len + cnt ! len) mod 65536]"

definition place_step :: "byte list \<Rightarrow> nat \<Rightarrow> nat list \<times> nat list \<Rightarrow> nat list \<times> nat list" where
  "place_step lengths i os =
     (let len = unat (lengths ! i)
      in if len \<noteq> 0
         then ((fst os)[len := (fst os ! len + 1) mod 65536], (snd os)[fst os ! len := i])
         else os)"

definition png_huffman_build :: "png_huffman \<Rightarrow> byte list \<Rightarrow> png_huffman option" where
  "png_huffman_build h lengths =
     (case count_lengths lengths (replicate 16 0) of
        None \<Rightarrow> None
      | Some cnt \<Rightarrow>
          if \<not> check_left cnt [1..<16] 1 then None
          else
            (let offs = fold (offs_step cnt) [1..<15] (replicate 16 0);
                 os = fold (place_step lengths) [0..<length lengths] (offs, symbol h)
             in Some \<lparr>count = cnt, symbol = snd os\<rparr>))"

text \<open>
  \<^verbatim>\<open>png_huffman_decode\<close>: the loop over \<open>len = 1 .. 15\<close> with its three \<^verbatim>\<open>uint32_t\<close>
  accumulators.
\<close>

function decode_loop ::
  "png_bitstream \<Rightarrow> png_huffman \<Rightarrow> nat \<Rightarrow> u32 \<Rightarrow> u32 \<Rightarrow> u32 \<Rightarrow> (nat \<times> png_bitstream) option" where
  "decode_loop bs h len code first index =
     (if len \<le> 15 then
        (case png_bitstream_get bs 1 of
           None \<Rightarrow> None
         | Some (b, bs1) \<Rightarrow>
             (let code1 = code OR b; cnt = (of_nat (count h ! len) :: u32)
              in if code1 < first + cnt
                 then Some (symbol h ! unat (index + (code1 - first)), bs1)
                 else decode_loop bs1 h (len + 1) (push_bit 1 code1)
                        (push_bit 1 (first + cnt)) (index + cnt)))
      else None)"
  by pat_completeness auto
termination
  by (relation "measure (\<lambda>(bs, h, len, code, first, index). 16 - len)") auto

definition png_huffman_decode :: "png_bitstream \<Rightarrow> png_huffman \<Rightarrow> (nat \<times> png_bitstream) option" where
  "png_huffman_decode bs h = decode_loop bs h 1 0 0 0"

text \<open>
  A table declared and not yet built: its content is indeterminate in C. The build
  overwrites \<^verbatim>\<open>count\<close>, and decoding reads \<^verbatim>\<open>symbol\<close> only below the number of
  symbols the build has placed.
\<close>

definition huffman_uninit :: png_huffman where
  "huffman_uninit = \<lparr>count = replicate 16 0, symbol = replicate 288 0\<rparr>"

definition png_build_fixed_huffman ::
  "png_huffman \<Rightarrow> png_huffman \<Rightarrow> (png_huffman \<times> png_huffman) option" where
  "png_build_fixed_huffman litlen dist =
     (let litlen_lengths = replicate 144 8 @ replicate 112 9 @ replicate 24 7 @ replicate 8 8;
          dist_lengths = replicate 32 5
      in case png_huffman_build litlen litlen_lengths of
           None \<Rightarrow> None
         | Some litlen' \<Rightarrow>
             (case png_huffman_build dist dist_lengths of
                None \<Rightarrow> None
              | Some dist' \<Rightarrow> Some (litlen', dist')))"

text \<open>The bits a stream still holds: those of the unread bytes and those in the register.\<close>

definition bits_left :: "png_bitstream \<Rightarrow> nat" where
  "bits_left bs = 8 * (length (bs_data bs) - bytepos bs) + bitcount bs"

declare fill_loop.simps [simp del]
declare decode_loop.simps [simp del]

lemma fill_loop_bits_left: "bits_left (fill_loop bs n) = bits_left bs"
proof (induction bs n rule: fill_loop.induct)
  case (1 bs n)
  show ?case
  proof (cases "bitcount bs < n \<and> bytepos bs < length (bs_data bs)")
    case True
    let ?bs = "bs\<lparr>bitbuf := bitbuf bs OR push_bit (bitcount bs) (ucast (bs_data bs ! bytepos bs)),
                  bytepos := bytepos bs + 1, bitcount := bitcount bs + 8\<rparr>"
    have "bits_left ?bs = bits_left bs"
      using True by (auto simp: bits_left_def)
    moreover have "fill_loop bs n = fill_loop ?bs n"
      using True by (subst fill_loop.simps) simp
    ultimately show ?thesis
      using "1.IH" [OF True] by simp
  next
    case False
    then show ?thesis by (subst fill_loop.simps) auto
  qed
qed

lemma get_bits_left:
  "png_bitstream_get bs n = Some (v, bs') \<Longrightarrow> bits_left bs' + n = bits_left bs"
  using fill_loop_bits_left [of bs n]
  by (auto simp: png_bitstream_get_def png_bitstream_fill_def Let_def bits_left_def
      split: if_splits)

lemma get_bits_le:
  "png_bitstream_get bs n = Some (v, bs') \<Longrightarrow> bits_left bs' \<le> bits_left bs"
  using get_bits_left by fastforce

lemma decode_loop_bits_left:
  "decode_loop bs h len code first index = Some (s, bs') \<Longrightarrow> bits_left bs' < bits_left bs"
proof (induction bs h len code first index rule: decode_loop.induct)
  case (1 bs h len code first index)
  from "1.prems" have len: "len \<le> 15"
    by (subst (asm) decode_loop.simps) (simp split: if_splits)
  from "1.prems" len obtain b bs1 where g: "png_bitstream_get bs 1 = Some (b, bs1)"
    by (subst (asm) decode_loop.simps) (auto split: option.splits)
  from get_bits_left [OF g] have lt: "bits_left bs1 < bits_left bs" by simp
  show ?case
  proof (cases "code OR b < first + of_nat (count h ! len)")
    case True
    with "1.prems" len g have "bs' = bs1"
      by (subst (asm) decode_loop.simps) (simp add: Let_def)
    with lt show ?thesis by simp
  next
    case False
    with "1.prems" len g have
      "decode_loop bs1 h (len + 1) (push_bit 1 (code OR b))
         (push_bit 1 (first + of_nat (count h ! len))) (index + of_nat (count h ! len))
       = Some (s, bs')"
      by (subst (asm) decode_loop.simps) (simp add: Let_def)
    from "1.IH" [OF len g refl refl refl False this] lt show ?thesis by simp
  qed
qed

lemma huffman_decode_bits_left:
  "png_huffman_decode bs h = Some (s, bs') \<Longrightarrow> bits_left bs' < bits_left bs"
  unfolding png_huffman_decode_def by (rule decode_loop_bits_left)

text \<open>
  \<^verbatim>\<open>png_build_dynamic_huffman\<close>. The loop that reads the code lengths of the code length
  alphabet runs over the first \<open>ncode\<close> entries of \<^verbatim>\<open>order\<close>. The second loop decodes
  the \<open>ntotal\<close> lengths (\<^verbatim>\<open>total\<close> in the source), one iteration being \<open>dynamic_step\<close>;
  the list \<open>lengths\<close> holds the entries written so far, so that \<open>i\<close> is its length.
\<close>

definition order :: "nat list" where
  "order = [16, 17, 18, 0, 8, 7, 9, 6, 10, 5, 11, 4, 12, 3, 13, 2, 14, 1, 15]"

fun read_code_lengths ::
  "png_bitstream \<Rightarrow> nat list \<Rightarrow> byte list \<Rightarrow> (byte list \<times> png_bitstream) option" where
  "read_code_lengths bs [] code_lengths = Some (code_lengths, bs)"
| "read_code_lengths bs (k # ks) code_lengths =
     (case png_bitstream_get bs 3 of
        None \<Rightarrow> None
      | Some (v, bs1) \<Rightarrow> read_code_lengths bs1 ks (code_lengths[k := ucast v]))"

definition dynamic_step ::
  "png_bitstream \<Rightarrow> png_huffman \<Rightarrow> nat \<Rightarrow> byte list \<Rightarrow> nat \<Rightarrow>
   (png_bitstream \<times> byte list \<times> nat) option" where
  "dynamic_step bs code_huff ntotal lengths prev =
     (let i = length lengths
      in case png_huffman_decode bs code_huff of
           None \<Rightarrow> None
         | Some (symb, bs1) \<Rightarrow>
             if symb \<le> 15 then Some (bs1, lengths @ [of_nat symb], symb)
             else if symb = 16 then
               (if i = 0 then None
                else (case png_bitstream_get bs1 2 of
                        None \<Rightarrow> None
                      | Some (r, bs2) \<Rightarrow>
                          (let repeat = r + 3
                           in if i + unat repeat > ntotal then None
                              else Some (bs2, lengths @ replicate (unat repeat) (of_nat prev),
                                         prev))))
             else if symb = 17 then
               (case png_bitstream_get bs1 3 of
                  None \<Rightarrow> None
                | Some (r, bs2) \<Rightarrow>
                    (let repeat = r + 3
                     in if i + unat repeat > ntotal then None
                        else Some (bs2, lengths @ replicate (unat repeat) 0, 0)))
             else if symb = 18 then
               (case png_bitstream_get bs1 7 of
                  None \<Rightarrow> None
                | Some (r, bs2) \<Rightarrow>
                    (let repeat = r + 11
                     in if i + unat repeat > ntotal then None
                        else Some (bs2, lengths @ replicate (unat repeat) 0, 0)))
             else None)"

lemma dynamic_step_bits_left:
  "dynamic_step bs ch n ls prev = Some (bs', ls', prev') \<Longrightarrow> bits_left bs' < bits_left bs"
  unfolding dynamic_step_def Let_def
  by (auto split: option.splits if_splits dest!: huffman_decode_bits_left get_bits_le)

function dynamic_lengths ::
  "png_bitstream \<Rightarrow> png_huffman \<Rightarrow> nat \<Rightarrow> byte list \<Rightarrow> nat \<Rightarrow> (byte list \<times> png_bitstream) option" where
  "dynamic_lengths bs code_huff ntotal lengths prev =
     (if length lengths < ntotal then
        (case dynamic_step bs code_huff ntotal lengths prev of
           None \<Rightarrow> None
         | Some (bs', lengths', prev') \<Rightarrow> dynamic_lengths bs' code_huff ntotal lengths' prev')
      else Some (lengths, bs))"
  by pat_completeness auto
termination
  by (relation "measure (\<lambda>(bs, code_huff, ntotal, lengths, prev). bits_left bs)")
     (auto dest: dynamic_step_bits_left)

definition png_build_dynamic_huffman ::
  "png_bitstream \<Rightarrow> png_huffman \<Rightarrow> png_huffman \<Rightarrow>
   (png_huffman \<times> png_huffman \<times> png_bitstream) option" where
  "png_build_dynamic_huffman bs litlen dist =
     (case png_bitstream_get bs 5 of
        None \<Rightarrow> None
      | Some (hlit, bs1) \<Rightarrow>
     (case png_bitstream_get bs1 5 of
        None \<Rightarrow> None
      | Some (hdist, bs2) \<Rightarrow>
     (case png_bitstream_get bs2 4 of
        None \<Rightarrow> None
      | Some (hclen, bs3) \<Rightarrow>
     (let nlen = unat hlit + 257; ndist = unat hdist + 1; ncode = unat hclen + 4
      in if nlen > 288 \<or> ndist > 32 then None
         else
     (case read_code_lengths bs3 (take ncode order) (replicate 19 0) of
        None \<Rightarrow> None
      | Some (code_lengths, bs4) \<Rightarrow>
     (case png_huffman_build huffman_uninit code_lengths of
        None \<Rightarrow> None
      | Some code_huff \<Rightarrow>
     (case dynamic_lengths bs4 code_huff (nlen + ndist) [] 0 of
        None \<Rightarrow> None
      | Some (lengths, bs5) \<Rightarrow>
     (case png_huffman_build litlen (take nlen lengths) of
        None \<Rightarrow> None
      | Some litlen' \<Rightarrow>
     (case png_huffman_build dist (take ndist (drop nlen lengths)) of
        None \<Rightarrow> None
      | Some dist' \<Rightarrow> Some (litlen', dist', bs5))))))))))"

section \<open>Inflate: the block loop\<close>

definition len_base :: "nat list" where
  "len_base = [3, 4, 5, 6, 7, 8, 9, 10, 11, 13, 15, 17, 19, 23, 27, 31, 35, 43, 51, 59,
               67, 83, 99, 115, 131, 163, 195, 227, 258]"

definition len_extra :: "nat list" where
  "len_extra = [0, 0, 0, 0, 0, 0, 0, 0, 1, 1, 1, 1, 2, 2, 2, 2, 3, 3, 3, 3,
                4, 4, 4, 4, 5, 5, 5, 5, 0]"

definition dist_base :: "nat list" where
  "dist_base = [1, 2, 3, 4, 5, 7, 9, 13, 17, 25, 33, 49, 65, 97, 129, 193, 257, 385, 513, 769,
                1025, 1537, 2049, 3073, 4097, 6145, 8193, 12289, 16385, 24577]"

definition dist_extra :: "nat list" where
  "dist_extra = [0, 0, 0, 0, 1, 1, 2, 2, 3, 3, 4, 4, 5, 5, 6, 6, 7, 7, 8, 8,
                 9, 9, 10, 10, 11, 11, 12, 12, 13, 13]"

text \<open>
  The output buffer is modelled by the bytes written so far, so that \<^verbatim>\<open>out_pos\<close> is the
  length of \<open>out\<close>. The copy loop of a back-reference appends \<open>out[out_pos - distance]\<close>
  once per iteration.
\<close>

fun lz77_copy :: "byte list \<Rightarrow> nat \<Rightarrow> nat \<Rightarrow> byte list" where
  "lz77_copy out distance 0 = out"
| "lz77_copy out distance (Suc k) =
     lz77_copy (out @ [out ! (length out - distance)]) distance k"

text \<open>The two checks on a back-reference and its copy (the end of the branch
  \<^verbatim>\<open>symb <= 285\<close>); the distance and the length are positive \<^verbatim>\<open>int\<close>s.\<close>

definition copy_match :: "byte list \<Rightarrow> nat \<Rightarrow> nat \<Rightarrow> nat \<Rightarrow> byte list option" where
  "copy_match out distance len expected_len =
     (if distance \<le> 0 \<or> distance > length out then None
      else if length out + len > expected_len then None
      else Some (lz77_copy out distance len))"

text \<open>One iteration of the symbol loop \<^verbatim>\<open>for (;;)\<close>: the flag tells whether it left the
  loop by \<^verbatim>\<open>break\<close> (the end-of-block symbol).\<close>

definition symbol_step ::
  "png_huffman \<Rightarrow> png_huffman \<Rightarrow> png_bitstream \<Rightarrow> byte list \<Rightarrow> nat \<Rightarrow>
   (bool \<times> png_bitstream \<times> byte list) option" where
  "symbol_step litlen dist bs out expected_len =
     (case png_huffman_decode bs litlen of
        None \<Rightarrow> None
      | Some (symb, bs1) \<Rightarrow>
          if symb < 256 then
            (if length out \<ge> expected_len then None
             else Some (False, bs1, out @ [of_nat symb]))
          else if symb = 256 then Some (True, bs1, out)
          else if symb \<le> 285 then
            (let len_sym = symb - 257
             in case (if len_extra ! len_sym \<noteq> 0
                      then png_bitstream_get bs1 (len_extra ! len_sym)
                      else Some (0, bs1)) of
                  None \<Rightarrow> None
                | Some (extra, bs2) \<Rightarrow>
                    (case png_huffman_decode bs2 dist of
                       None \<Rightarrow> None
                     | Some (dist_sym, bs3) \<Rightarrow>
                         if dist_sym \<ge> 30 then None
                         else
                           (case (if dist_extra ! dist_sym \<noteq> 0
                                  then png_bitstream_get bs3 (dist_extra ! dist_sym)
                                  else Some (0, bs3)) of
                              None \<Rightarrow> None
                            | Some (dist_extra_bits, bs4) \<Rightarrow>
                                (case copy_match out
                                        (dist_base ! dist_sym + unat dist_extra_bits)
                                        (len_base ! len_sym + unat extra) expected_len of
                                   None \<Rightarrow> None
                                 | Some out' \<Rightarrow> Some (False, bs4, out')))))
          else None)"

lemma symbol_step_bits_left:
  "symbol_step litlen dist bs out el = Some (brk, bs', out') \<Longrightarrow> bits_left bs' < bits_left bs"
  unfolding symbol_step_def Let_def
  by (auto split: option.splits if_splits dest!: huffman_decode_bits_left get_bits_le)

function inflate_symbols ::
  "png_huffman \<Rightarrow> png_huffman \<Rightarrow> png_bitstream \<Rightarrow> byte list \<Rightarrow> nat \<Rightarrow>
   (png_bitstream \<times> byte list) option" where
  "inflate_symbols litlen dist bs out expected_len =
     (case symbol_step litlen dist bs out expected_len of
        None \<Rightarrow> None
      | Some (brk, bs', out') \<Rightarrow>
          if brk then Some (bs', out')
          else inflate_symbols litlen dist bs' out' expected_len)"
  by pat_completeness auto
termination
  by (relation "measure (\<lambda>(litlen, dist, bs, out, expected_len). bits_left bs)")
     (auto dest: symbol_step_bits_left)

declare dynamic_lengths.simps [simp del]
declare inflate_symbols.simps [simp del]

lemma dynamic_lengths_bits_le:
  "dynamic_lengths bs ch n ls prev = Some (ls', bs') \<Longrightarrow> bits_left bs' \<le> bits_left bs"
proof (induction bs ch n ls prev rule: dynamic_lengths.induct)
  case (1 bs ch n ls prev)
  show ?case
  proof (cases "length ls < n")
    case False
    with "1.prems" show ?thesis by (subst (asm) dynamic_lengths.simps) simp
  next
    case True
    with "1.prems" obtain bs1 ls1 prev1 where
      st: "dynamic_step bs ch n ls prev = Some (bs1, ls1, prev1)" and
      rec: "dynamic_lengths bs1 ch n ls1 prev1 = Some (ls', bs')"
      by (subst (asm) dynamic_lengths.simps) (auto split: option.splits)
    from "1.IH" [OF True st refl refl rec] dynamic_step_bits_left [OF st]
    show ?thesis by simp
  qed
qed

lemma inflate_symbols_bits_le:
  "inflate_symbols litlen dist bs out el = Some (bs', out') \<Longrightarrow> bits_left bs' \<le> bits_left bs"
proof (induction litlen dist bs out el rule: inflate_symbols.induct)
  case (1 litlen dist bs out el)
  from "1.prems" obtain brk bs1 out1 where
    st: "symbol_step litlen dist bs out el = Some (brk, bs1, out1)"
    by (subst (asm) inflate_symbols.simps) (auto split: option.splits)
  show ?case
  proof (cases brk)
    case True
    with "1.prems" st have "bs' = bs1" by (subst (asm) inflate_symbols.simps) simp
    with symbol_step_bits_left [OF st] show ?thesis by simp
  next
    case False
    with "1.prems" st have rec: "inflate_symbols litlen dist bs1 out1 el = Some (bs', out')"
      by (subst (asm) inflate_symbols.simps) simp
    from "1.IH" [OF st refl refl False rec] symbol_step_bits_left [OF st]
    show ?thesis by simp
  qed
qed

lemma align_bits_le: "png_bitstream_align bs = Some bs' \<Longrightarrow> bits_left bs' \<le> bits_left bs"
  by (auto simp: png_bitstream_align_def Let_def split: if_splits dest: get_bits_le)

lemma read_bytes_loop_bits_le:
  "read_bytes_loop bs k = Some (vs, bs') \<Longrightarrow> bits_left bs' \<le> bits_left bs"
proof (induction k arbitrary: bs vs)
  case 0
  then show ?case by simp
next
  case (Suc k)
  from Suc.prems obtain v bs1 vs1 where
    g: "png_bitstream_get bs 8 = Some (v, bs1)" and
    r: "read_bytes_loop bs1 k = Some (vs1, bs')"
    by (auto split: option.splits)
  from Suc.IH [OF r] get_bits_le [OF g] show ?case by simp
qed

lemma read_bytes_bits_le:
  "png_bitstream_read_bytes bs k = Some (vs, bs') \<Longrightarrow> bits_left bs' \<le> bits_left bs"
proof (cases "bitcount bs = 0")
  case True
  assume "png_bitstream_read_bytes bs k = Some (vs, bs')"
  with True show ?thesis
    by (auto simp: png_bitstream_read_bytes_def bits_left_def split: if_splits)
next
  case False
  assume "png_bitstream_read_bytes bs k = Some (vs, bs')"
  with False show ?thesis
    by (simp add: png_bitstream_read_bytes_def read_bytes_loop_bits_le)
qed

lemma read_code_lengths_bits_le:
  "read_code_lengths bs ks cl = Some (cl', bs') \<Longrightarrow> bits_left bs' \<le> bits_left bs"
proof (induction ks arbitrary: bs cl)
  case Nil
  then show ?case by simp
next
  case (Cons k ks)
  from Cons.prems obtain v bs1 where
    g: "png_bitstream_get bs 3 = Some (v, bs1)" and
    r: "read_code_lengths bs1 ks (cl[k := ucast v]) = Some (cl', bs')"
    by (auto split: option.splits)
  from Cons.IH [OF r] get_bits_le [OF g] show ?case by simp
qed

lemma build_dynamic_bits_le:
  assumes "png_build_dynamic_huffman bs litlen dist = Some (l, d, bs')"
  shows "bits_left bs' \<le> bits_left bs"
proof -
  from assms obtain hlit bs1 hdist bs2 hclen bs3 cl bs4 ch ls where
    g1: "png_bitstream_get bs 5 = Some (hlit, bs1)" and
    g2: "png_bitstream_get bs1 5 = Some (hdist, bs2)" and
    g3: "png_bitstream_get bs2 4 = Some (hclen, bs3)" and
    r: "read_code_lengths bs3 (take (unat hclen + 4) order) (replicate 19 0) = Some (cl, bs4)" and
    dl: "dynamic_lengths bs4 ch (unat hlit + 257 + (unat hdist + 1)) [] 0 = Some (ls, bs')"
    unfolding png_build_dynamic_huffman_def Let_def
    by (auto split: option.splits if_splits)
  from get_bits_le [OF g1] get_bits_le [OF g2] get_bits_le [OF g3]
    read_code_lengths_bits_le [OF r] dynamic_lengths_bits_le [OF dl]
  show ?thesis by simp
qed

text \<open>One block after its three header bits: the body of the \<^verbatim>\<open>while (!final)\<close> loop.\<close>

definition inflate_block ::
  "png_bitstream \<Rightarrow> u32 \<Rightarrow> byte list \<Rightarrow> nat \<Rightarrow> (png_bitstream \<times> byte list) option" where
  "inflate_block bs btype out expected_len =
     (if btype = 0 then
        (case png_bitstream_align bs of
           None \<Rightarrow> None
         | Some bs1 \<Rightarrow>
        (case png_bitstream_get bs1 16 of
           None \<Rightarrow> None
         | Some (stored_len, bs2) \<Rightarrow>
        (case png_bitstream_get bs2 16 of
           None \<Rightarrow> None
         | Some (stored_nlen, bs3) \<Rightarrow>
             if stored_len XOR 0xffff \<noteq> stored_nlen then None
             else if length out + unat stored_len > expected_len then None
             else (case png_bitstream_read_bytes bs3 (unat stored_len) of
                     None \<Rightarrow> None
                   | Some (bytes, bs4) \<Rightarrow> Some (bs4, out @ bytes)))))
      else if btype = 1 \<or> btype = 2 then
        (case (if btype = 1
               then map_option (\<lambda>(l, d). (l, d, bs))
                      (png_build_fixed_huffman huffman_uninit huffman_uninit)
               else png_build_dynamic_huffman bs huffman_uninit huffman_uninit) of
           None \<Rightarrow> None
         | Some (litlen, dist, bs1) \<Rightarrow> inflate_symbols litlen dist bs1 out expected_len)
      else None)"

lemma inflate_block_bits_le:
  assumes "inflate_block bs btype out el = Some (bs', out')"
  shows "bits_left bs' \<le> bits_left bs"
proof -
  consider "btype = 0" | "btype = 1" | "btype = 2" | "btype \<noteq> 0 \<and> btype \<noteq> 1 \<and> btype \<noteq> 2"
    by blast
  then show ?thesis
  proof cases
    case 1
    with assms obtain bs1 sl bs2 snl bs3 bytes where
      a: "png_bitstream_align bs = Some bs1" and
      g1: "png_bitstream_get bs1 16 = Some (sl, bs2)" and
      g2: "png_bitstream_get bs2 16 = Some (snl, bs3)" and
      r: "png_bitstream_read_bytes bs3 (unat sl) = Some (bytes, bs')"
      unfolding inflate_block_def by (auto split: option.splits if_splits)
    from align_bits_le [OF a] get_bits_le [OF g1] get_bits_le [OF g2] read_bytes_bits_le [OF r]
    show ?thesis by simp
  next
    case 2
    with assms obtain l d where
      "inflate_symbols l d bs out el = Some (bs', out')"
      unfolding inflate_block_def by (auto split: option.splits)
    then show ?thesis by (rule inflate_symbols_bits_le)
  next
    case 3
    with assms obtain l d bs1 where
      b: "png_build_dynamic_huffman bs huffman_uninit huffman_uninit = Some (l, d, bs1)" and
      i: "inflate_symbols l d bs1 out el = Some (bs', out')"
      unfolding inflate_block_def by (auto split: option.splits)
    from build_dynamic_bits_le [OF b] inflate_symbols_bits_le [OF i]
    show ?thesis by simp
  next
    case 4
    with assms show ?thesis unfolding inflate_block_def by simp
  qed
qed

function inflate_blocks ::
  "png_bitstream \<Rightarrow> byte list \<Rightarrow> nat \<Rightarrow> (png_bitstream \<times> byte list) option" where
  "inflate_blocks bs out expected_len =
     (case png_bitstream_get bs 1 of
        None \<Rightarrow> None
      | Some (bfinal, bs1) \<Rightarrow>
          (case png_bitstream_get bs1 2 of
             None \<Rightarrow> None
           | Some (btype, bs2) \<Rightarrow>
               (case inflate_block bs2 btype out expected_len of
                  None \<Rightarrow> None
                | Some (bs3, out') \<Rightarrow>
                    if bfinal \<noteq> 0 then Some (bs3, out')
                    else inflate_blocks bs3 out' expected_len)))"
  by pat_completeness auto
termination
proof (relation "measure (\<lambda>(bs, out, expected_len). bits_left bs)", goal_cases)
  case 1
  show ?case by simp
next
  case (2 bs out expected_len x2 bfinal bs1 x2a btype bs2 x2b bs3 out')
  then have "bits_left bs1 + 1 = bits_left bs" "bits_left bs2 \<le> bits_left bs1"
    "bits_left bs3 \<le> bits_left bs2"
    by (auto dest: get_bits_left get_bits_le inflate_block_bits_le)
  then show ?case by simp
qed

declare inflate_blocks.simps [simp del]

text \<open>Four bytes at an offset of a buffer as a big-endian \<^verbatim>\<open>uint32_t\<close>.\<close>

definition png_read_be32_mem :: "byte list \<Rightarrow> nat \<Rightarrow> u32" where
  "png_read_be32_mem p off =
     push_bit 24 (ucast (p ! off)) OR push_bit 16 (ucast (p ! (off + 1))) OR
     push_bit 8 (ucast (p ! (off + 2))) OR ucast (p ! (off + 3))"

text \<open>
  \<^verbatim>\<open>png_inflate_zlib(data, len, expected_len)\<close>, \<open>len\<close> being the length of \<open>zdata\<close>. The
  expected checksum is read from the last four bytes by the expression of
  \<^verbatim>\<open>png_read_be32_mem\<close>. The sum \<^verbatim>\<open>(cmf << 8) + flg\<close> is an \<^verbatim>\<open>int\<close> below \<open>2 ^ 16\<close>.
\<close>

definition png_inflate_zlib :: "byte list \<Rightarrow> nat \<Rightarrow> byte list option" where
  "png_inflate_zlib zdata expected_len =
     (let len = length zdata
      in if len < 6 then None
         else
           (let cmf = zdata ! 0; flg = zdata ! 1
            in if cmf AND 0x0f \<noteq> 8 then None
               else if (uint cmf * 256 + uint flg) mod 31 \<noteq> 0 then None
               else if flg AND 0x20 \<noteq> 0 \<and> len < 10 then None
               else
                 (let pos = (if flg AND 0x20 \<noteq> 0 then 6 else 2)
                  in if len < pos + 4 then None
                     else
                       (let deflate_len = len - pos - 4;
                            bs = \<lparr>bs_data = take deflate_len (drop pos zdata),
                                  bytepos = 0, bitbuf = 0, bitcount = 0\<rparr>
                        in if \<not> malloc_ok expected_len then None
                           else
                             (case inflate_blocks bs [] expected_len of
                                None \<Rightarrow> None
                              | Some (bs', out) \<Rightarrow>
                                  if length out \<noteq> expected_len then None
                                  else if png_adler32 out \<noteq> png_read_be32_mem zdata (len - 4)
                                  then None
                                  else Some out)))))"

section \<open>Row filter reconstruction\<close>

definition png_abs :: "int \<Rightarrow> int" where
  "png_abs x = (if x < 0 then - x else x)"

text \<open>
  The loops of \<^verbatim>\<open>png_unfilter_row\<close> run over the byte index \<open>i\<close> and update \<open>row[i]\<close> in
  place; each is a fold of its body over the indices. The neighbours \<open>a\<close>, \<open>b\<close>, \<open>c\<close> and
  the predictor are \<^verbatim>\<open>int\<close>s between \<open>-255\<close> and \<open>510\<close>, far from any overflow, and the
  assignment to \<open>row[i]\<close> truncates to eight bits. The caller passes a row of
  \<open>width * channels\<close> bytes and a previous row of the same length (or null).
\<close>

definition sub_step :: "nat \<Rightarrow> nat \<Rightarrow> byte list \<Rightarrow> byte list" where
  "sub_step bpp i row = row[i := row ! i + row ! (i - bpp)]"

definition up_step :: "byte list \<Rightarrow> nat \<Rightarrow> byte list \<Rightarrow> byte list" where
  "up_step prev i row = row[i := row ! i + prev ! i]"

definition average_step :: "byte list option \<Rightarrow> nat \<Rightarrow> nat \<Rightarrow> byte list \<Rightarrow> byte list" where
  "average_step prev_row bpp i row =
     (let a = (if i \<ge> bpp then uint (row ! (i - bpp)) else 0);
          b = (case prev_row of None \<Rightarrow> 0 | Some p \<Rightarrow> uint (p ! i))
      in row[i := of_int (uint (row ! i) + (a + b) div 2)])"

definition paeth_pr :: "int \<Rightarrow> int \<Rightarrow> int \<Rightarrow> int" where
  "paeth_pr a b c =
     (let p = a + b - c;
          pa = png_abs (p - a);
          pb = png_abs (p - b);
          pc = png_abs (p - c)
      in if pa \<le> pb \<and> pa \<le> pc then a else if pb \<le> pc then b else c)"

definition paeth_step :: "byte list option \<Rightarrow> nat \<Rightarrow> nat \<Rightarrow> byte list \<Rightarrow> byte list" where
  "paeth_step prev_row bpp i row =
     (let a = (if i \<ge> bpp then uint (row ! (i - bpp)) else 0);
          b = (case prev_row of None \<Rightarrow> 0 | Some p \<Rightarrow> uint (p ! i));
          c = (case prev_row of None \<Rightarrow> 0
               | Some p \<Rightarrow> if i \<ge> bpp then uint (p ! (i - bpp)) else 0)
      in row[i := of_int (uint (row ! i) + paeth_pr a b c)])"

definition png_unfilter_row ::
  "byte list \<Rightarrow> byte list option \<Rightarrow> int \<Rightarrow> c_int \<Rightarrow> c_int \<Rightarrow> byte list" where
  "png_unfilter_row row prev_row ftype w c =
     (let bpp = nat (sint c); n = nat (sint (w * c))
      in if ftype = 0 then row
         else if ftype = 1 then fold (sub_step bpp) [bpp..<n] row
         else if ftype = 2 then
           (case prev_row of None \<Rightarrow> row | Some p \<Rightarrow> fold (up_step p) [0..<n] row)
         else if ftype = 3 then fold (average_step prev_row bpp) [0..<n] row
         else if ftype = 4 then fold (paeth_step prev_row bpp) [0..<n] row
         else row)"

text \<open>The predictor as the specification words it, with the absolute value of HOL.\<close>

definition PaethPredictor :: "int \<Rightarrow> int \<Rightarrow> int \<Rightarrow> int" where
  "PaethPredictor a b c =
     (let p = a + b - c; pa = \<bar>p - a\<bar>; pb = \<bar>p - b\<bar>; pc = \<bar>p - c\<bar>
      in if pa \<le> pb \<and> pa \<le> pc then a else if pb \<le> pc then b else c)"

section \<open>PNG reading\<close>

text \<open>
  What the chunk loop of \<^verbatim>\<open>png_load_mem\<close> collects. \<^verbatim>\<open>idat_data\<close> is null (\<open>None\<close>) until
  the first IDAT chunk, and \<^verbatim>\<open>idat_len\<close> is its length. The payloads are disjoint parts
  of the input, so \<^verbatim>\<open>realloc\<close> is never asked for more than the input holds. (For a
  request of zero bytes glibc's \<^verbatim>\<open>realloc\<close> may return null where the model keeps an
  empty buffer; decoding fails in both cases unless a later chunk brings bytes, and then
  the two agree.)
\<close>

record chunks =
  ihdr_width :: c_int
  ihdr_height :: c_int
  color_type :: byte
  idat_data :: "byte list option"

text \<open>One iteration of the loop \<^verbatim>\<open>while (pos + 8 <= len)\<close>: the position and the state it
  goes on with, or \<open>None\<close> when the loop ends there, by its condition or by \<^verbatim>\<open>break\<close>
  (each \<^verbatim>\<open>break\<close> comes before any assignment of the iteration).\<close>

definition chunk_step :: "byte list \<Rightarrow> nat \<Rightarrow> chunks \<Rightarrow> (nat \<times> chunks) option" where
  "chunk_step d pos st =
     (let len = length d
      in if pos + 8 \<le> len then
           (let chunk_len = unat (png_read_be32_mem d pos);
                chunk_type = take 4 (drop (pos + 4) d);
                pos1 = pos + 8
            in if pos1 + chunk_len + 4 > len then None
               else if chunk_type = type_IHDR then
                 (if chunk_len < 13 then None
                  else Some (pos1 + chunk_len + 4,
                             st\<lparr>ihdr_width := png_read_be32_mem d pos1,
                                ihdr_height := png_read_be32_mem d (pos1 + 4),
                                color_type := d ! (pos1 + 9)\<rparr>))
               else if chunk_type = type_IDAT then
                 Some (pos1 + chunk_len + 4,
                       st\<lparr>idat_data :=
                            Some ((case idat_data st of None \<Rightarrow> [] | Some z \<Rightarrow> z)
                                  @ take chunk_len (drop pos1 d))\<rparr>)
               else if chunk_type = type_IEND then None
               else Some (pos1 + chunk_len + 4, st))
         else None)"

lemma chunk_step_advances:
  "chunk_step d pos st = Some (pos', st') \<Longrightarrow> pos < pos' \<and> pos' \<le> length d"
  by (auto simp: chunk_step_def Let_def split: if_splits)

function read_chunks :: "byte list \<Rightarrow> nat \<Rightarrow> chunks \<Rightarrow> chunks" where
  "read_chunks d pos st =
     (case chunk_step d pos st of
        None \<Rightarrow> st
      | Some (pos', st') \<Rightarrow> read_chunks d pos' st')"
  by pat_completeness auto
termination
  by (relation "measure (\<lambda>(d, pos, st). length d - pos)")
     (auto dest!: chunk_step_advances)

declare read_chunks.simps [simp del]

text \<open>
  The row loop of \<^verbatim>\<open>png_load_mem\<close>, from row \<open>y\<close> on. \<^verbatim>\<open>prev_row\<close> points into \<open>raw\<close>
  and is kept as an offset. The row starts at offset \<open>y * row_bytes\<close> of \<open>raw\<close> and goes
  to offset \<open>y * width * channels\<close> of the pixel buffer, both products in \<^verbatim>\<open>int\<close>;
  \<^verbatim>\<open>memcpy\<close> takes \<open>width * channels\<close> converted to \<^verbatim>\<open>size_t\<close>. Reading the filter byte
  or the row outside \<open>raw\<close>, or writing outside the pixel buffer, is undefined. Where
  the accesses are in bounds the rows do not overlap, and reconstruction in place is
  the replacement of the row's slice of \<open>raw\<close>.
\<close>

function load_rows ::
  "c_int \<Rightarrow> c_int \<Rightarrow> c_int \<Rightarrow> c_int \<Rightarrow> nat \<Rightarrow> nat option \<Rightarrow> byte list \<Rightarrow> byte list \<Rightarrow>
   byte list outcome" where
  "load_rows w h c row_bytes y prev_row raw pixels =
     (if int y < sint h then
        (let off = sint (of_nat y * row_bytes);
             n = size_t_of_int (w * c);
             dst = sint (of_nat y * w * c)
         in if off < 0 \<or> nat off \<ge> length raw then Undefined
            else
              (let ftype = uint (raw ! nat off);
                   row_off = nat off + 1
               in if row_off + n > length raw \<or> dst < 0 \<or> nat dst + n > length pixels
                  then Undefined
                  else
                    (let row = png_unfilter_row (take n (drop row_off raw))
                                 (map_option (\<lambda>p. take n (drop p raw)) prev_row) ftype w c
                     in load_rows w h c row_bytes (Suc y) (Some row_off)
                          (take row_off raw @ row @ drop (row_off + n) raw)
                          (take (nat dst) pixels @ row @ drop (nat dst + n) pixels))))
      else Returns pixels)"
  by pat_completeness auto
termination
  by (relation "measure (\<lambda>(w, h, c, row_bytes, y, prev_row, raw, pixels). nat (sint h) - y)")
     auto

declare load_rows.simps [simp del]

definition png_load_mem :: "byte list \<Rightarrow> png_image option outcome" where
  "png_load_mem d =
     (if length d < 8 then Returns None
      else if take 8 d \<noteq> signature then Returns None
      else
        (let st = read_chunks d 8
                    \<lparr>ihdr_width = 0, ihdr_height = 0, color_type = 0, idat_data = None\<rparr>;
             w = ihdr_width st; h = ihdr_height st
         in case idat_data st of
              None \<Rightarrow> Returns None
            | Some idat \<Rightarrow>
                if w = 0 \<or> h = 0 then Returns None
                else
                  (case (if color_type st = 0 then Some 1
                         else if color_type st = 2 then Some 3
                         else if color_type st = 4 then Some 2
                         else if color_type st = 6 then Some 4
                         else None) of
                     None \<Rightarrow> Returns None
                   | Some c \<Rightarrow>
                       (let raw_len = size_t_of_int (h * (1 + w * c))
                        in case png_inflate_zlib idat raw_len of
                             None \<Rightarrow> Returns None
                           | Some raw \<Rightarrow>
                               (case png_create w h c of
                                  None \<Rightarrow> Returns None
                                | Some img \<Rightarrow>
                                    bind_outcome
                                      (load_rows w h c (1 + w * c) 0 None raw (data img))
                                      (\<lambda>pixels. Returns (Some (img\<lparr>data := pixels\<rparr>))))))))"

text \<open>\<^verbatim>\<open>png_load\<close> reads the whole file and decodes it; a file that cannot be opened
  gives null.\<close>

definition png_load :: "string \<Rightarrow> filesystem \<Rightarrow> png_image option outcome" where
  "png_load path fs =
     (case files fs path of
        None \<Rightarrow> Returns None
      | Some file_data \<Rightarrow> png_load_mem file_data)"

section \<open>Properties of the row filters\<close>

lemma paeth_pr_eq: "paeth_pr a b c = PaethPredictor a b c"
  by (simp add: paeth_pr_def PaethPredictor_def png_abs_def abs_if Let_def)

lemma length_paeth_step [simp]: "length (paeth_step pr bpp i row) = length row"
  by (simp add: paeth_step_def Let_def)

lemma length_fold_paeth [simp]:
  "length (fold (paeth_step pr bpp) is row) = length row"
  by (induction "is" arbitrary: row) simp_all

lemma paeth_step_other: "j \<noteq> i \<Longrightarrow> paeth_step pr bpp i row ! j = row ! j"
  by (simp add: paeth_step_def Let_def)

lemma fold_paeth_untouched:
  "j \<notin> set is \<Longrightarrow> fold (paeth_step pr bpp) is row ! j = row ! j"
  by (induction "is" arbitrary: row) (auto simp: paeth_step_other)

lemma fold_paeth_after:
  assumes "i \<le> k"
  shows "fold (paeth_step pr bpp) [i..<k] row ! j =
         (if i \<le> j \<and> j < k then fold (paeth_step pr bpp) [i..<Suc j] row ! j else row ! j)"
using assms
proof (induction k)
  case 0
  then show ?case by simp
next
  case (Suc k)
  show ?case
  proof (cases "i \<le> k")
    case False
    with Suc.prems have "i = Suc k" by simp
    then show ?thesis by auto
  next
    case True
    then have split: "[i..<Suc k] = [i..<k] @ [k]" by simp
    show ?thesis
    proof (cases "j = k")
      case True
      then show ?thesis using \<open>i \<le> k\<close> by simp
    next
      case False
      then show ?thesis
        using Suc.IH [OF True] by (simp add: split paeth_step_other del: upt_Suc)
    qed
  qed
qed

text \<open>
  C7. For every byte index \<open>i\<close> of a row with filter type 4, reconstruction sets
  \<open>row[i]\<close> to \<open>(row[i] + PaethPredictor a b c) mod 256\<close>, where \<open>a\<close>, \<open>b\<close>, \<open>c\<close> are the
  left, above and upper-left reconstructed neighbours (0 when absent), and the predictor
  takes \<open>p = a + b - c\<close> on signed integers and returns \<open>a\<close>, \<open>b\<close> or \<open>c\<close> by the distances
  \<open>|p - a|\<close>, \<open>|p - b|\<close>, \<open>|p - c|\<close>, ties going to \<open>a\<close>, then \<open>b\<close>, then \<open>c\<close>.
\<close>

theorem png_unfilter_row_paeth:
  fixes row :: "byte list" and prev_row :: "byte list option" and w c :: c_int
  defines "bpp \<equiv> nat (sint c)"
  defines "row' \<equiv> png_unfilter_row row prev_row 4 w c"
  assumes chan: "1 \<le> sint c"
    and len: "sint (w * c) = int (length row)"
    and i: "i < length row"
  shows "uint (row' ! i) =
           (uint (row ! i) +
            PaethPredictor
              (if i \<ge> bpp then uint (row' ! (i - bpp)) else 0)
              (case prev_row of None \<Rightarrow> 0 | Some p \<Rightarrow> uint (p ! i))
              (case prev_row of None \<Rightarrow> 0
               | Some p \<Rightarrow> if i \<ge> bpp then uint (p ! (i - bpp)) else 0)) mod 256"
proof -
  let ?f = "paeth_step prev_row bpp"
  let ?n = "length row"
  have row': "row' = fold ?f [0..<?n] row"
    using len by (simp add: row'_def png_unfilter_row_def bpp_def Let_def)
  define r where "r = fold ?f [0..<i] row"
  have lr: "length r = ?n" by (simp add: r_def)
  have ri: "r ! i = row ! i"
    by (simp add: r_def fold_paeth_untouched)
  have fin: "row' ! j = fold ?f [0..<Suc j] row ! j" if "j < ?n" for j
    using that fold_paeth_after [of 0 ?n prev_row bpp row j] by (simp add: row')
  have left: "r ! (i - bpp) = row' ! (i - bpp)" if "bpp \<le> i"
  proof -
    have pos: "0 < bpp" using chan by (simp add: bpp_def)
    then have lt: "i - bpp < i" using that by simp
    then have "r ! (i - bpp) = fold ?f [0..<Suc (i - bpp)] row ! (i - bpp)"
      using fold_paeth_after [of 0 i prev_row bpp row "i - bpp"] by (simp add: r_def)
    also have "\<dots> = row' ! (i - bpp)"
      using fin [of "i - bpp"] lt i by simp
    finally show ?thesis .
  qed
  have "row' ! i = ?f i r ! i"
    using fin [OF i] by (simp add: r_def)
  also have "\<dots> = of_int (uint (row ! i) +
      paeth_pr (if i \<ge> bpp then uint (row' ! (i - bpp)) else 0)
        (case prev_row of None \<Rightarrow> 0 | Some p \<Rightarrow> uint (p ! i))
        (case prev_row of None \<Rightarrow> 0
         | Some p \<Rightarrow> if i \<ge> bpp then uint (p ! (i - bpp)) else 0))"
    using i lr left by (simp add: paeth_step_def Let_def ri)
  finally show ?thesis
    by (simp only: paeth_pr_eq uint_word_of_int) simp
qed

lemma paeth_example:
  "png_unfilter_row [5, 5, 5] (Some [10, 20, 30]) 4 3 1 = [15, 25, 35]"
  by code_simp

theorem png_unfilter_row_paeth_witness:
  "png_unfilter_row [5, 5, 5] (Some [10, 20, 30]) 4 3 1 = [15, 25, 35] \<and>
   uint ([15, 25, 35 :: byte] ! 1) = (uint (5 :: byte) + PaethPredictor 15 20 10) mod 256"
  using png_unfilter_row_paeth
    [where row = "[5, 5, 5]" and prev_row = "Some [10, 20, 30]" and w = 3 and c = 1 and i = 1]
  by (simp add: paeth_example)

lemma sint_range32: "- (2 ^ 31) \<le> sint (x :: c_int) \<and> sint x < 2 ^ 31"
  using sint_ge [of x] sint_lt [of x] by simp

lemma malloc_ok_size_t_of_int: "malloc_ok (size_t_of_int x) \<longleftrightarrow> 0 \<le> sint x"
  using sint_range32 [of x] by (auto simp: size_t_of_int_def malloc_ok_def nat_le_iff)

lemma size_t_of_int_nonneg: "0 \<le> sint x \<Longrightarrow> size_t_of_int x = nat (sint x)"
  by (simp add: size_t_of_int_def)

lemma length_sub_step [simp]: "length (sub_step bpp i row) = length row"
  by (simp add: sub_step_def)
lemma length_up_step [simp]: "length (up_step p i row) = length row"
  by (simp add: up_step_def)
lemma length_average_step [simp]: "length (average_step pr bpp i row) = length row"
  by (simp add: average_step_def Let_def)

lemma length_fold_step:
  "(\<And>i r. length (f i r) = length r) \<Longrightarrow> length (fold f is row) = length row"
  by (induction "is" arbitrary: row) simp_all

lemma length_png_unfilter_row [simp]:
  "length (png_unfilter_row row prev_row ftype w c) = length row"
  by (simp add: png_unfilter_row_def Let_def length_fold_step split: option.splits)

lemma load_rows_length:
  "load_rows w h c rb y prev raw pixels = Returns pixels' \<Longrightarrow> length pixels' = length pixels"
proof (induction w h c rb y prev raw pixels rule: load_rows.induct)
  case (1 w h c rb y prev raw pixels)
  show ?case
  proof (cases "int y < sint h")
    case False
    with "1.prems" show ?thesis by (subst (asm) load_rows.simps) simp
  next
    case True
    define off where "off = sint (of_nat y * rb)"
    define n where "n = size_t_of_int (w * c)"
    define dst where "dst = sint (of_nat y * w * c)"
    define row where "row = png_unfilter_row (take n (drop (nat off + 1) raw))
       (map_option (\<lambda>p. take n (drop p raw)) prev) (uint (raw ! nat off)) w c"
    from "1.prems" True have g1: "\<not> (off < 0 \<or> nat off \<ge> length raw)"
      by (subst (asm) load_rows.simps) (auto simp: Let_def off_def split: if_splits)
    from "1.prems" True g1 have g2:
      "\<not> (nat off + 1 + n > length raw \<or> dst < 0 \<or> nat dst + n > length pixels)"
      by (subst (asm) load_rows.simps) (auto simp: Let_def off_def n_def dst_def split: if_splits)
    from "1.prems" True g1 g2 have rec:
      "load_rows w h c rb (Suc y) (Some (nat off + 1))
         (take (nat off + 1) raw @ row @ drop (nat off + 1 + n) raw)
         (take (nat dst) pixels @ row @ drop (nat dst + n) pixels) = Returns pixels'"
      by (subst (asm) load_rows.simps) (simp add: Let_def off_def n_def dst_def row_def)
    have lrow: "length row = n" using g2 by (auto simp: row_def)
    from "1.IH" [OF True refl refl refl, folded off_def n_def dst_def, OF g1 refl refl g2 refl,
        folded row_def, OF rec]
    show ?thesis using g2 lrow by simp
  qed
qed


section \<open>Unknown filter types and unchecked sizes\<close>

text \<open>
  Two inputs written out byte by byte: signature, IHDR, one IDAT holding a zlib stream
  of one stored block, IEND. The first is a 1 by 1 grayscale image whose row has the
  filter byte 5; the second declares the width \<open>0x80000001\<close> with colour type 4 (two
  channels) and height 1, and its stream inflates to three bytes.
\<close>

definition png_filter5 :: "byte list" where
  "png_filter5 =
     [0x89, 0x50, 0x4e, 0x47, 0x0d, 0x0a, 0x1a, 0x0a,
      0x00, 0x00, 0x00, 0x0d, 0x49, 0x48, 0x44, 0x52,
      0x00, 0x00, 0x00, 0x01, 0x00, 0x00, 0x00, 0x01, 0x08, 0x00, 0x00, 0x00, 0x00,
      0x3a, 0x7e, 0x9b, 0x55,
      0x00, 0x00, 0x00, 0x0d, 0x49, 0x44, 0x41, 0x54,
      0x78, 0x01, 0x01, 0x02, 0x00, 0xfd, 0xff, 0x05, 0x07, 0x00, 0x13, 0x00, 0x0d,
      0x88, 0xba, 0xc5, 0x1d,
      0x00, 0x00, 0x00, 0x00, 0x49, 0x45, 0x4e, 0x44, 0xae, 0x42, 0x60, 0x82]"

definition png_overflow :: "byte list" where
  "png_overflow =
     [0x89, 0x50, 0x4e, 0x47, 0x0d, 0x0a, 0x1a, 0x0a,
      0x00, 0x00, 0x00, 0x0d, 0x49, 0x48, 0x44, 0x52,
      0x80, 0x00, 0x00, 0x01, 0x00, 0x00, 0x00, 0x01, 0x08, 0x04, 0x00, 0x00, 0x00,
      0x15, 0x76, 0x29, 0x15,
      0x00, 0x00, 0x00, 0x0e, 0x49, 0x44, 0x41, 0x54,
      0x78, 0x01, 0x01, 0x03, 0x00, 0xfc, 0xff, 0x00, 0x07, 0x09, 0x00, 0x1a, 0x00, 0x11,
      0xb4, 0x52, 0x3f, 0xac,
      0x00, 0x00, 0x00, 0x00, 0x49, 0x45, 0x4e, 0x44, 0xae, 0x42, 0x60, 0x82]"

lemmas eval_simps = png_bitstream_get_def png_bitstream_fill_def fill_loop.simps
  png_bitstream_align_def png_bitstream_read_bytes_def Let_def inflate_blocks.simps
  inflate_block_def png_adler32_def adler_step_def png_inflate_zlib_def malloc_ok_def
  png_read_be32_mem_def read_chunks.simps chunk_step_def type_IHDR_def type_IDAT_def
  type_IEND_def
  png_load_mem_def signature_def png_create_def size_t_of_int_def load_rows.simps
  bind_outcome_def png_unfilter_row_def

text \<open>
  C3 as stated fails: the row of \<open>png_filter5\<close> has the filter byte 5, as the inflated
  stream shows, and the input is decoded to its image.
\<close>

theorem unknown_filter_decodes:
  "png_inflate_zlib (take 13 (drop 41 png_filter5)) 2 = Some [5, 7] \<and>
   png_load_mem png_filter5 =
     Returns (Some \<lparr>width = 1, height = 1, channels = 1, data = [7]\<rparr>)"
  by (simp add: png_filter5_def eval_simps)

text \<open>
  C3 (amended). A filter byte greater than 4 is not rejected: \<^verbatim>\<open>png_unfilter_row\<close> leaves
  such a row as it is, exactly as for filter type 0, and the row loop of \<^verbatim>\<open>png_load_mem\<close>
  copies the row unchanged into the pixel buffer and goes on to the next row.
\<close>

theorem unknown_filter_is_none:
  fixes w h c rb :: c_int and raw pixels :: "byte list" and y :: nat
  defines "off \<equiv> nat (sint (of_nat y * rb))"
  defines "n \<equiv> size_t_of_int (w * c)"
  defines "dst \<equiv> nat (sint (of_nat y * w * c))"
  shows "(4 < ftype \<longrightarrow> png_unfilter_row row prev_row ftype w c = row) \<and>
         (int y < sint h \<and> 0 \<le> sint (of_nat y * rb) \<and> off + 1 + n \<le> length raw \<and>
          0 \<le> sint (of_nat y * w * c) \<and> dst + n \<le> length pixels \<and> 4 < raw ! off \<longrightarrow>
          load_rows w h c rb y prev raw pixels =
          load_rows w h c rb (Suc y) (Some (off + 1)) raw
            (take dst pixels @ take n (drop (off + 1) raw) @ drop (dst + n) pixels))"
proof (intro conjI impI)
  assume "4 < ftype"
  then show "png_unfilter_row row prev_row ftype w c = row"
    by (simp add: png_unfilter_row_def Let_def)
next
  assume a: "int y < sint h \<and> 0 \<le> sint (of_nat y * rb) \<and> off + 1 + n \<le> length raw \<and>
          0 \<le> sint (of_nat y * w * c) \<and> dst + n \<le> length pixels \<and> 4 < raw ! off"
  then have "4 < uint (raw ! off)"
    by (simp add: word_less_def)
  then have unf: "png_unfilter_row r p (uint (raw ! off)) w c = r" for r p
    by (simp add: png_unfilter_row_def Let_def)
  have same: "take (off + 1) raw @ take n (drop (off + 1) raw) @ drop (off + 1 + n) raw = raw"
    by (metis append_take_drop_id drop_drop add.commute)
  show "load_rows w h c rb y prev raw pixels =
          load_rows w h c rb (Suc y) (Some (off + 1)) raw
            (take dst pixels @ take n (drop (off + 1) raw) @ drop (dst + n) pixels)"
    using a same unf
    by (subst load_rows.simps) (simp add: Let_def off_def n_def dst_def)
qed

theorem unknown_filter_is_none_witness:
  "png_unfilter_row [1, 2, 3] (Some [4, 5, 6]) 5 1 1 = [1, 2, 3] \<and>
   load_rows 1 1 1 2 0 None [5, 7] [0] = Returns [7]"
  using unknown_filter_is_none [where ftype = 5 and row = "[1, 2, 3]" and prev_row = "Some [4, 5, 6]"
      and w = 1 and c = 1 and y = 0 and h = 1 and rb = 2 and raw = "[5, 7]" and pixels = "[0]"
      and prev = None]
  by (simp add: size_t_of_int_def load_rows.simps)

section \<open>Image management and sizes\<close>

text \<open>
  C10. The public interface tolerates null arguments: \<^verbatim>\<open>png_free(NULL)\<close> leaves the heap as
  it is, \<^verbatim>\<open>png_clone(NULL)\<close> returns null, and \<^verbatim>\<open>png_save\<close> and \<^verbatim>\<open>png_save_with_text\<close>
  return \<open>-1\<close> and leave the file system untouched when the image or the path is null.
\<close>

theorem null_arguments_tolerated:
  "png_free None hp = Returns hp \<and>
   png_clone None = Returns None \<and>
   png_save None path fs = Returns (- 1, fs) \<and>
   png_save img None fs = Returns (- 1, fs) \<and>
   png_save_with_text None path keyword txt fs = Returns (- 1, fs) \<and>
   png_save_with_text img None keyword txt fs = Returns (- 1, fs)"
  by (simp add: png_free_def png_clone_def png_save_def png_save_with_text_def
      split: option.splits)

lemma png_load_mem_Some:
  assumes "png_load_mem d = Returns (Some img)"
  obtains st idat raw img0 pixels where
    "st = read_chunks d 8 \<lparr>ihdr_width = 0, ihdr_height = 0, color_type = 0, idat_data = None\<rparr>"
    "idat_data st = Some idat"
    "width img = ihdr_width st" "height img = ihdr_height st"
    "channels img = (if color_type st = 0 then 1 else if color_type st = 2 then 3
                     else if color_type st = 4 then 2 else 4)"
    "color_type st \<in> {0, 2, 4, 6}"
    "png_inflate_zlib idat
       (size_t_of_int (height img * (1 + width img * channels img))) = Some raw"
    "png_create (width img) (height img) (channels img) = Some img0"
    "load_rows (width img) (height img) (channels img) (1 + width img * channels img) 0 None
       raw (data img0) = Returns pixels"
    "img = img0\<lparr>data := pixels\<rparr>"
proof -
  define st where
    "st = read_chunks d 8 \<lparr>ihdr_width = 0, ihdr_height = 0, color_type = 0, idat_data = None\<rparr>"
  define c :: c_int where
    "c = (if color_type st = 0 then 1 else if color_type st = 2 then 3
          else if color_type st = 4 then 2 else 4)"
  from assms obtain idat where idat: "idat_data st = Some idat"
    by (auto simp: png_load_mem_def Let_def st_def split: if_splits option.splits)
  from assms idat have ct: "color_type st \<in> {0, 2, 4, 6}"
    by (auto simp: png_load_mem_def Let_def st_def split: if_splits option.splits)
  from assms idat ct obtain raw where
    raw: "png_inflate_zlib idat (size_t_of_int (ihdr_height st * (1 + ihdr_width st * c))) = Some raw"
    by (auto simp: png_load_mem_def Let_def st_def [symmetric] c_def split: if_splits option.splits)
  from assms idat ct raw obtain img0 where
    img0: "png_create (ihdr_width st) (ihdr_height st) c = Some img0"
    by (auto simp: png_load_mem_def Let_def st_def [symmetric] c_def split: if_splits option.splits)
  from assms idat ct raw img0 obtain pixels where
    rows: "load_rows (ihdr_width st) (ihdr_height st) c (1 + ihdr_width st * c) 0 None
       raw (data img0) = Returns pixels" and img: "img = img0\<lparr>data := pixels\<rparr>"
    by (auto simp: png_load_mem_def Let_def st_def [symmetric] c_def bind_outcome_def
        split: if_splits option.splits outcome.splits)
  from img0 have f: "width img0 = ihdr_width st" "height img0 = ihdr_height st" "channels img0 = c"
    by (auto simp: png_create_def Let_def split: if_splits)
  show thesis
    using that [OF st_def idat _ _ _ ct, of raw img0 pixels] raw img0 rows img f
    by (simp add: c_def)
qed

lemma png_create_Some:
  assumes "png_create w h c = Some img"
  shows "width img = w \<and> height img = h \<and> channels img = c \<and>
         0 \<le> sint (w * h * c) \<and> int (length (data img)) = sint (w * h * c)"
  using assms malloc_ok_size_t_of_int [of "w * h * c"]
  by (auto simp: png_create_def Let_def size_t_of_int_def split: if_splits)

lemma inflate_zlib_Some_malloc:
  "png_inflate_zlib z n = Some raw \<Longrightarrow> malloc_ok n"
  by (auto simp: png_inflate_zlib_def Let_def split: if_splits option.splits)

lemma png_overflow_decodes:
  "png_load_mem png_overflow =
     Returns (Some \<lparr>width = 0x80000001, height = 1, channels = 2, data = [7, 9]\<rparr>)"
  by (simp add: png_overflow_def eval_simps)

text \<open>
  C5 as stated fails: the input \<open>png_overflow\<close> has the width field \<open>0x80000001\<close> with
  two channels, so that \<open>width * channels\<close> overflows (the product is \<open>-4294967294\<close>),
  and it is decoded to an image all the same.
\<close>

theorem overflowed_size_decodes:
  "sint (0x80000001 :: c_int) * 2 < - (2 ^ 31) \<and>
   png_load_mem png_overflow =
     Returns (Some \<lparr>width = 0x80000001, height = 1, channels = 2, data = [7, 9]\<rparr>)"
  by (simp add: png_overflow_decodes)

lemma sint_mult_in_range:
  fixes a b :: c_int
  assumes "- (2 ^ 31) \<le> sint a * sint b" "sint a * sint b < 2 ^ 31"
  shows "sint (a * b) = sint a * sint b"
  using assms by (simp add: sint_word_ariths signed_take_bit_int_eq_self)

lemma png_clone_Some:
  assumes "png_clone (Some i) = Returns (Some img)"
  shows "width img = width i \<and> height img = height i \<and> channels img = channels i \<and>
         int (length (data img)) = sint (width i * height i * channels i)"
proof -
  from assms obtain clone d where
    c: "png_create (width i) (height i) (channels i) = Some clone" and
    m: "memcpy (data clone) (data i) (size_t_of_int (width i * height i * channels i)) = Returns d" and
    img: "img = clone\<lparr>data := d\<rparr>"
    by (auto simp: png_clone_def split: option.splits outcome.splits)
  from m have "length d = length (data clone)"
    by (auto simp: memcpy_def split: if_splits)
  with png_create_Some [OF c] img show ?thesis by simp
qed

text \<open>
  C9 fails at \<^verbatim>\<open>png_create(65536, 65537, 1)\<close>. The size passed to \<^verbatim>\<open>calloc\<close> is the
  \<^verbatim>\<open>int\<close> product \<^verbatim>\<open>width * height * channels\<close>, which overflows here: the image returned
  has \<open>65536 * 65537\<close> pixels of one channel, \<open>4295032832\<close> bytes by the invariant, and a
  buffer of 65536 bytes. \<^verbatim>\<open>png_save_internal\<close> and the row loop of \<^verbatim>\<open>png_load_mem\<close> read
  and write \<open>width * channels\<close> bytes for each of the \<open>height\<close> rows of such a buffer.
\<close>

theorem buffer_smaller_than_product:
  "png_create 0x10000 0x10001 1 =
     Some \<lparr>width = 0x10000, height = 0x10001, channels = 1, data = replicate 65536 0\<rparr> \<and>
   sint (0x10000 :: c_int) * sint (0x10001 :: c_int) * sint (1 :: c_int) = 4295032832 \<and>
   length (replicate 65536 (0 :: byte)) = 65536"
  by (simp add: png_create_def size_t_of_int_def malloc_ok_def)

section \<open>Back-references\<close>

lemma lz77_copy_append:
  "\<exists>ext. lz77_copy out distance k = out @ ext \<and> length ext = k"
proof (induction k arbitrary: out)
  case 0
  show ?case by simp
next
  case (Suc k)
  from Suc.IH [of "out @ [out ! (length out - distance)]"]
  show ?case by auto
qed

lemma length_lz77_copy [simp]: "length (lz77_copy out distance k) = length out + k"
  using lz77_copy_append [of out distance k] by auto

lemma take_lz77_copy [simp]: "take (length out) (lz77_copy out distance k) = out"
  using lz77_copy_append [of out distance k] by auto

lemma lz77_copy_nth_old: "j < length out \<Longrightarrow> lz77_copy out distance k ! j = out ! j"
  using lz77_copy_append [of out distance k] by (auto simp: nth_append)

lemma lz77_copy_overlap:
  assumes "1 \<le> distance" "distance \<le> length out" "i < k"
  shows "lz77_copy out distance k ! (length out + i) =
         lz77_copy out distance k ! (length out + i - distance)"
  using assms
proof (induction k arbitrary: out i)
  case 0
  then show ?case by simp
next
  case (Suc k)
  let ?out = "out @ [out ! (length out - distance)]"
  let ?res = "lz77_copy ?out distance k"
  have res: "lz77_copy out distance (Suc k) = ?res" by simp
  show ?case
  proof (cases i)
    case 0
    have "?res ! length out = ?out ! length out"
      by (rule lz77_copy_nth_old) simp
    moreover have "?res ! (length out - distance) = ?out ! (length out - distance)"
      using Suc.prems by (intro lz77_copy_nth_old) simp
    ultimately show ?thesis
      using Suc.prems 0 by (simp add: nth_append)
  next
    case (Suc i')
    have "?res ! (length ?out + i') = ?res ! (length ?out + i' - distance)"
      using Suc.prems Suc by (intro Suc.IH) simp_all
    then show ?thesis
      using Suc Suc.prems by (simp add: Suc_diff_le)
  qed
qed

lemma symbol_step_cases:
  assumes "symbol_step litlen dist bs out el = Some (brk, bs', out')"
  shows "brk \<and> out' = out \<or>
         \<not> brk \<and> (\<exists>b. out' = out @ [b]) \<and> length out < el \<or>
         \<not> brk \<and> (\<exists>distance len. copy_match out distance len el = Some out')"
  using assms unfolding symbol_step_def Let_def
  by (auto split: option.splits if_splits)

lemma lz77_copy_example: "lz77_copy [0x41, 0x42] 2 5 = [0x41, 0x42, 0x41, 0x42, 0x41, 0x42, 0x41]"
  by (simp add: numeral_eq_Suc)

section \<open>Huffman table construction\<close>

text \<open>The quantities of the specification: the number of codes of a length, the running
  Kraft count \<open>left\<close> after the lengths \<open>1 .. k\<close>, and the offset of the first symbol of a
  length in \<^verbatim>\<open>symbol[]\<close>.\<close>

definition codes_of_length :: "byte list \<Rightarrow> nat \<Rightarrow> nat" where
  "codes_of_length lengths l = length (filter (\<lambda>x. unat x = l) lengths)"

fun kraft_left :: "byte list \<Rightarrow> nat \<Rightarrow> int" where
  "kraft_left lengths 0 = 1"
| "kraft_left lengths (Suc k) = 2 * kraft_left lengths k - int (codes_of_length lengths (Suc k))"

definition first_slot :: "byte list \<Rightarrow> nat \<Rightarrow> nat" where
  "first_slot lengths l = sum_list (map (codes_of_length lengths) [1..<l])"

definition symbols_of_length :: "byte list \<Rightarrow> nat \<Rightarrow> nat list" where
  "symbols_of_length lengths l = filter (\<lambda>i. unat (lengths ! i) = l) [0..<length lengths]"

lemma count_lengths_None:
  "count_lengths ls cnt = None \<longleftrightarrow> (\<exists>x\<in>set ls. 15 < unat x)"
  by (induction ls arbitrary: cnt) auto

lemma codes_of_length_le: "codes_of_length ls l \<le> length ls"
  by (simp add: codes_of_length_def)

lemma codes_of_length_Cons:
  "codes_of_length (x # ls) l = (if unat x = l then 1 else 0) + codes_of_length ls l"
  by (simp add: codes_of_length_def)

lemma count_lengths_Some:
  assumes "count_lengths ls cnt = Some cnt'" "length cnt = 16"
    "\<forall>l<16. cnt ! l + codes_of_length ls l < 65536"
  shows "length cnt' = 16 \<and> (\<forall>l<16. cnt' ! l = cnt ! l + codes_of_length ls l)"
  using assms
proof (induction ls arbitrary: cnt)
  case Nil
  then show ?case by (simp add: codes_of_length_def)
next
  case (Cons x ls)
  from Cons.prems(1) have x: "unat x \<le> 15" by (auto split: if_splits)
  let ?cnt = "cnt[unat x := (cnt ! unat x + 1) mod 65536]"
  from Cons.prems(1) x have rec: "count_lengths ls ?cnt = Some cnt'" by simp
  have small: "cnt ! unat x + 1 < 65536"
    using Cons.prems(3) x by (auto simp: codes_of_length_Cons dest!: spec [of _ "unat x"])
  have upd: "?cnt ! l = cnt ! l + (if unat x = l then 1 else 0)" if "l < 16" for l
    using that small Cons.prems(2) by (auto simp: nth_list_update)
  have "\<forall>l<16. ?cnt ! l + codes_of_length ls l < 65536"
    using Cons.prems(3) upd by (auto simp: codes_of_length_Cons)
  from Cons.IH [OF rec _ this] Cons.prems(2)
  have "length cnt' = 16 \<and> (\<forall>l<16. cnt' ! l = ?cnt ! l + codes_of_length ls l)" by simp
  then show ?case using upd by (auto simp: codes_of_length_Cons)
qed

lemma check_left_iff:
  assumes "\<forall>l<b. cnt ! l = codes_of_length ls l" "1 \<le> a" "a \<le> b"
  shows "check_left cnt [a..<b] (kraft_left ls (a - 1)) \<longleftrightarrow>
         (\<forall>k. a \<le> k \<and> k < b \<longrightarrow> 0 \<le> kraft_left ls k)"
  using assms(2,3)
proof (induction "b - a" arbitrary: a)
  case 0
  then have e: "[a..<b] = []" by simp
  have "\<not> (a \<le> k \<and> k < b)" for k using 0 by simp
  then show ?case unfolding e by auto
next
  case (Suc m)
  then have a: "a < b" by simp
  then have up: "[a..<b] = a # [Suc a..<b]" by (rule upt_conv_Cons)
  from Suc.prems obtain a' where a': "a = Suc a'" by (cases a) auto
  have k: "kraft_left ls a = 2 * kraft_left ls (a - 1) - int (cnt ! a)"
    using assms(1) a a' by simp
  have "m = b - Suc a" using Suc.hyps(2) by simp
  then have IH: "check_left cnt [Suc a..<b] (kraft_left ls a) \<longleftrightarrow>
         (\<forall>k. Suc a \<le> k \<and> k < b \<longrightarrow> 0 \<le> kraft_left ls k)"
    using Suc.hyps(1) [of "Suc a"] a by simp
  have split: "(\<forall>k. a \<le> k \<and> k < b \<longrightarrow> 0 \<le> kraft_left ls k) \<longleftrightarrow>
        0 \<le> kraft_left ls a \<and> (\<forall>k. Suc a \<le> k \<and> k < b \<longrightarrow> 0 \<le> kraft_left ls k)"
  proof
    assume h: "\<forall>k. a \<le> k \<and> k < b \<longrightarrow> 0 \<le> kraft_left ls k"
    show "0 \<le> kraft_left ls a \<and> (\<forall>k. Suc a \<le> k \<and> k < b \<longrightarrow> 0 \<le> kraft_left ls k)"
      using h a by simp
  next
    assume h: "0 \<le> kraft_left ls a \<and> (\<forall>k. Suc a \<le> k \<and> k < b \<longrightarrow> 0 \<le> kraft_left ls k)"
    show "\<forall>k. a \<le> k \<and> k < b \<longrightarrow> 0 \<le> kraft_left ls k"
    proof (intro allI impI)
      fix k assume "a \<le> k \<and> k < b"
      then consider "k = a" | "Suc a \<le> k \<and> k < b" by force
      then show "0 \<le> kraft_left ls k" using h by cases simp_all
    qed
  qed
  have "check_left cnt [a..<b] (kraft_left ls (a - 1)) \<longleftrightarrow>
        0 \<le> kraft_left ls a \<and> check_left cnt [Suc a..<b] (kraft_left ls a)"
    unfolding up check_left.simps Let_def k [symmetric] by auto
  with IH split show ?case by simp
qed

lemma build_None_iff:
  assumes "length ls \<le> 288"
  shows "png_huffman_build h ls = None \<longleftrightarrow>
         (\<exists>x\<in>set ls. 15 < unat x) \<or> (\<exists>k\<in>{1..15}. kraft_left ls k < 0)"
proof (cases "count_lengths ls (replicate 16 0)")
  case None
  then have "\<exists>x\<in>set ls. 15 < unat x" by (simp add: count_lengths_None)
  then show ?thesis
    using None by (simp add: png_huffman_build_def)
next
  case (Some cnt)
  then have ok: "\<not> (\<exists>x\<in>set ls. 15 < unat x)"
    using count_lengths_None [of ls "replicate 16 0"] by simp
  have "\<forall>l<16. replicate 16 0 ! l + codes_of_length ls l < 65536"
  proof (intro allI impI)
    fix l :: nat
    have "codes_of_length ls l \<le> 288"
      using codes_of_length_le [of ls l] assms by simp
    then show "replicate 16 0 ! l + codes_of_length ls l < 65536" if "l < 16"
      using that by simp
  qed
  from count_lengths_Some [OF Some _ this]
  have cnt: "\<forall>l<16. cnt ! l = codes_of_length ls l" by simp
  from check_left_iff [of 16 cnt ls 1] cnt
  have "check_left cnt [1..<16] 1 \<longleftrightarrow> (\<forall>k. 1 \<le> k \<and> k < 16 \<longrightarrow> 0 \<le> kraft_left ls k)"
    by simp
  also have "\<dots> \<longleftrightarrow> \<not> (\<exists>k\<in>{1..15}. kraft_left ls k < 0)"
    by (auto simp: not_less) 
  finally show ?thesis
    using Some ok by (simp add: png_huffman_build_def Let_def)
qed

lemma upt_split: "a \<le> k \<Longrightarrow> k < b \<Longrightarrow> [a..<b] = [a..<k] @ k # [Suc k..<b]"
  using upt_add_eq_append [of a k "b - k"] upt_conv_Cons [of k b] by simp

lemma sum_codes_of_length:
  "sum_list (map (codes_of_length ls) [a..<b]) =
   length (filter (\<lambda>x. a \<le> unat x \<and> unat x < b) ls)"
proof (induction b)
  case 0
  show ?case by simp
next
  case (Suc b)
  show ?case
  proof (cases "a \<le> b")
    case False
    then have "\<not> (a \<le> unat x \<and> unat x < Suc b)" for x :: byte by simp
    with False show ?thesis by simp
  next
    case True
    have "length (filter (\<lambda>x. a \<le> unat x \<and> unat x < Suc b) ls) =
          length (filter (\<lambda>x. a \<le> unat x \<and> unat x < b) ls) + length (filter (\<lambda>x. unat x = b) ls)"
      using True by (induction ls) auto
    with True Suc show ?thesis by (simp add: codes_of_length_def)
  qed
qed

lemma first_slot_le: "first_slot ls l \<le> length ls"
  unfolding first_slot_def sum_codes_of_length by simp

lemma first_slot_mono:
  assumes "1 \<le> l" "l < l'"
  shows "first_slot ls l + codes_of_length ls l \<le> first_slot ls l'"
proof -
  have "[1..<l'] = [1..<l] @ l # [Suc l..<l']"
    using assms by (intro upt_split) simp_all
  then show ?thesis by (simp add: first_slot_def)
qed

lemma first_slot_end:
  assumes "1 \<le> l"
  shows "first_slot ls l + codes_of_length ls l \<le> length ls"
  using first_slot_mono [OF assms, of "Suc l" ls] first_slot_le [of ls "Suc l"] by simp

lemma codes_of_length_index:
  "codes_of_length ls l = length (filter (\<lambda>i. unat (ls ! i) = l) [0..<length ls])"
proof -
  have "filter (\<lambda>x. unat x = l) ls = map ((!) ls) (filter (\<lambda>i. unat (ls ! i) = l) [0..<length ls])"
    by (subst (1) map_nth [of ls, symmetric]) (simp only: filter_map o_def)
  then show ?thesis by (simp add: codes_of_length_def)
qed

lemma placed_before_less:
  assumes "k < length ls" "unat (ls ! k) = l"
  shows "length (filter (\<lambda>i. unat (ls ! i) = l) [0..<k]) < codes_of_length ls l"
proof -
  have "[0..<length ls] = [0..<k] @ k # [Suc k..<length ls]"
    using assms(1) by (intro upt_split) simp_all
  then show ?thesis using assms(2) by (simp add: codes_of_length_index)
qed

lemma placed_before_le:
  assumes "k \<le> length ls"
  shows "length (filter (\<lambda>i. unat (ls ! i) = l) [0..<k]) \<le> codes_of_length ls l"
proof -
  have "[0..<length ls] = [0..<k] @ [k..<length ls]"
    using assms upt_add_eq_append [of 0 k "length ls - k"] by simp
  then show ?thesis by (simp add: codes_of_length_index)
qed

lemma first_slot_Suc:
  "1 \<le> l \<Longrightarrow> first_slot ls (Suc l) = first_slot ls l + codes_of_length ls l"
  by (simp add: first_slot_def)

lemma fold_offs_step:
  assumes cnt: "\<forall>l<16. cnt ! l = codes_of_length ls l" and n: "length ls \<le> 288"
    and m: "1 \<le> m" "m \<le> 15"
  shows "length (fold (offs_step cnt) [1..<m] (replicate 16 0)) = 16 \<and>
         (\<forall>l. 1 \<le> l \<and> l \<le> m \<longrightarrow>
            fold (offs_step cnt) [1..<m] (replicate 16 0) ! l = first_slot ls l)"
  using m
proof (induction m)
  case 0
  then show ?case by simp
next
  case (Suc m)
  show ?case
  proof (cases "m = 0")
    case True
    then show ?thesis by (auto simp: first_slot_def le_Suc_eq)
  next
    case False
    then have m1: "1 \<le> m" and m15: "m \<le> 15" using Suc.prems by simp_all
    define offs where "offs = fold (offs_step cnt) [1..<m] (replicate 16 0)"
    from Suc.IH [OF m1 m15] have len: "length offs = 16"
      and IH: "\<And>l. 1 \<le> l \<Longrightarrow> l \<le> m \<Longrightarrow> offs ! l = first_slot ls l"
      by (simp_all add: offs_def)
    have fold: "fold (offs_step cnt) [1..<Suc m] (replicate 16 0) = offs[m + 1 := (offs ! m + cnt ! m) mod 65536]"
      using m1 by (simp add: offs_def offs_step_def)
    have "first_slot ls (Suc m) \<le> 288"
      using first_slot_le [of ls "Suc m"] n by simp
    then have new: "(offs ! m + cnt ! m) mod 65536 = first_slot ls (Suc m)"
      using IH [OF m1] cnt m15 Suc.prems m1 by (simp add: first_slot_Suc)
    show ?thesis
      unfolding fold
      using len IH new Suc.prems by (auto simp: nth_list_update le_Suc_eq)
  qed
qed

text \<open>The state of the placement loop after the symbols below \<open>k\<close>.\<close>

lemma place_invariant:
  fixes ls :: "byte list" and sym0 offs0 :: "nat list"
  defines "placed k l \<equiv> filter (\<lambda>i. unat (ls ! i) = l) [0..<k]"
  defines "st k \<equiv> fold (place_step ls) [0..<k] (offs0, sym0)"
  assumes all15: "\<forall>x\<in>set ls. unat x \<le> 15" and n: "length ls \<le> length sym0"
    and small: "length ls \<le> 288"
    and offs0: "length offs0 = 16" "\<forall>l. 1 \<le> l \<and> l \<le> 15 \<longrightarrow> offs0 ! l = first_slot ls l"
    and k: "k \<le> length ls"
  shows "length (fst (st k)) = 16 \<and> length (snd (st k)) = length sym0 \<and>
         (\<forall>l. 1 \<le> l \<and> l \<le> 15 \<longrightarrow> fst (st k) ! l = first_slot ls l + length (placed k l)) \<and>
         (\<forall>l. 1 \<le> l \<and> l \<le> 15 \<longrightarrow>
            (\<forall>j<length (placed k l). snd (st k) ! (first_slot ls l + j) = placed k l ! j)) \<and>
         (\<forall>p. first_slot ls 16 \<le> p \<longrightarrow> snd (st k) ! p = sym0 ! p)"
  using k
proof (induction k)
  case 0
  show ?case using offs0 by (simp add: st_def placed_def)
next
  case (Suc k)
  then have k: "k < length ls" and kle: "k \<le> length ls" by simp_all
  from Suc.IH [OF kle] have
    len1: "length (fst (st k)) = 16" and len2: "length (snd (st k)) = length sym0" and
    offs: "\<And>l. 1 \<le> l \<Longrightarrow> l \<le> 15 \<Longrightarrow> fst (st k) ! l = first_slot ls l + length (placed k l)" and
    syms: "\<And>l j. 1 \<le> l \<Longrightarrow> l \<le> 15 \<Longrightarrow> j < length (placed k l) \<Longrightarrow>
             snd (st k) ! (first_slot ls l + j) = placed k l ! j" and
    rest: "\<And>p. first_slot ls 16 \<le> p \<Longrightarrow> snd (st k) ! p = sym0 ! p"
    by simp_all
  define len where "len = unat (ls ! k)"
  have step: "st (Suc k) = place_step ls k (st k)"
    by (simp add: st_def)
  have placed_Suc: "placed (Suc k) l = (if len = l then placed k l @ [k] else placed k l)" for l
    by (simp add: placed_def len_def)
  show ?case
  proof (cases "len = 0")
    case True
    then have "st (Suc k) = st k"
      by (simp add: step place_step_def len_def Let_def)
    moreover have "placed (Suc k) l = placed k l" if "1 \<le> l" for l
      using that True by (simp add: placed_Suc)
    ultimately show ?thesis
      using len1 len2 offs syms rest by simp
  next
    case False
    then have l1: "1 \<le> len" by simp
    have l15: "len \<le> 15" using all15 k by (simp add: len_def)
    let ?p = "first_slot ls len + length (placed k len)"
    have st': "st (Suc k) = ((fst (st k))[len := (?p + 1) mod 65536], (snd (st k))[?p := k])"
      using False offs [OF l1 l15] by (simp add: step place_step_def len_def Let_def)
    have lt: "length (placed k len) < codes_of_length ls len"
      unfolding placed_def using k by (intro placed_before_less) (simp_all add: len_def)
    have pend: "?p < first_slot ls len + codes_of_length ls len" using lt by simp
    have p_lt: "?p < length ls"
      using pend first_slot_end [OF l1, of ls] by simp
    then have mod: "(?p + 1) mod 65536 = ?p + 1" using small by simp
    have p16: "?p < first_slot ls 16"
      using pend first_slot_mono [OF l1, of 16 ls] l15 by simp
    have other: "first_slot ls l + j \<noteq> ?p"
      if "1 \<le> l" "l \<le> 15" "j < length (placed k l)" "l \<noteq> len" for l j
    proof (cases "l < len")
      case True
      have "length (placed k l) \<le> codes_of_length ls l"
        unfolding placed_def using kle by (rule placed_before_le)
      with that(3) first_slot_mono [OF that(1) True, of ls] show ?thesis by simp
    next
      case False
      with that(4) have "len < l" by simp
      from first_slot_mono [OF l1 this, of ls] pend show ?thesis by simp
    qed
    show ?thesis
    proof (intro conjI allI impI)
      show "length (fst (st (Suc k))) = 16" using len1 by (simp add: st')
      show "length (snd (st (Suc k))) = length sym0" using len2 by (simp add: st')
    next
      fix l :: nat assume l: "1 \<le> l \<and> l \<le> 15"
      show "fst (st (Suc k)) ! l = first_slot ls l + length (placed (Suc k) l)"
        using l offs [of l] len1 mod by (simp add: st' placed_Suc nth_list_update)
    next
      fix l j :: nat assume l: "1 \<le> l \<and> l \<le> 15" and j: "j < length (placed (Suc k) l)"
      show "snd (st (Suc k)) ! (first_slot ls l + j) = placed (Suc k) l ! j"
      proof (cases "l = len")
        case True
        show ?thesis
        proof (cases "j = length (placed k len)")
          case True
          then show ?thesis
            using \<open>l = len\<close> p_lt n len2 by (simp add: st' placed_Suc)
        next
          case False
          with j True have "j < length (placed k len)" by (simp add: placed_Suc)
          then show ?thesis
            using True syms [OF l1 l15, of j] by (simp add: st' placed_Suc nth_append)
        qed
      next
        case False
        with j have j': "j < length (placed k l)" by (simp add: placed_Suc)
        from other [OF _ _ j' False] l have "first_slot ls l + j \<noteq> ?p" by simp
        then show ?thesis
          using False syms [of l j] l j' by (simp add: st' placed_Suc)
      qed
    next
      fix p :: nat assume "first_slot ls 16 \<le> p"
      then show "snd (st (Suc k)) ! p = sym0 ! p"
        using rest [of p] p16 by (simp add: st')
    qed
  qed
qed

lemma kraft_left_stays_negative:
  "kraft_left ls k < 0 \<Longrightarrow> k \<le> k' \<Longrightarrow> kraft_left ls k' < 0"
proof (induction k')
  case 0
  then show ?case by simp
next
  case (Suc k')
  show ?case
  proof (cases "k = Suc k'")
    case True
    with Suc.prems show ?thesis by simp
  next
    case False
    with Suc.prems have "k \<le> k'" by simp
    from Suc.IH [OF Suc.prems(1) this] show ?thesis by simp
  qed
qed

lemma kraft_left_zeros: "kraft_left (replicate n 0) k = 2 ^ k"
  by (induction k) (simp_all add: codes_of_length_def)

lemma concat_groups:
  fixes g :: "nat \<Rightarrow> 'a list" and S :: "nat \<Rightarrow> nat"
  assumes "\<And>l. a \<le> l \<Longrightarrow> l < b \<Longrightarrow> take (length (g l)) (drop (S l) xs) = g l"
    and "\<And>l. a \<le> l \<Longrightarrow> l < b \<Longrightarrow> S (Suc l) = S l + length (g l)"
    and "a \<le> b"
  shows "S a \<le> S b \<and> take (S b - S a) (drop (S a) xs) = concat (map g [a..<b])"
  using assms
proof (induction b)
  case 0
  then show ?case by simp
next
  case (Suc b)
  show ?case
  proof (cases "a = Suc b")
    case True
    then show ?thesis by simp
  next
    case False
    with Suc.prems(3) have ab: "a \<le> b" by simp
    from Suc.IH [OF _ _ ab] Suc.prems(1,2)
    have IH: "S a \<le> S b" "take (S b - S a) (drop (S a) xs) = concat (map g [a..<b])"
      by simp_all
    have Sb: "S (Suc b) = S b + length (g b)" using Suc.prems(2) ab by simp
    have gb: "take (length (g b)) (drop (S b) xs) = g b" using Suc.prems(1) ab by simp
    have e: "S (Suc b) - S a = (S b - S a) + length (g b)"
      using IH(1) Sb by simp
    have "take (S (Suc b) - S a) (drop (S a) xs) =
          take (S b - S a) (drop (S a) xs) @ take (length (g b)) (drop (S b - S a) (drop (S a) xs))"
      unfolding e by (rule take_add)
    also have "drop (S b - S a) (drop (S a) xs) = drop (S b) xs"
      using IH(1) by simp
    also have "take (S b - S a) (drop (S a) xs) @ take (length (g b)) (drop (S b) xs) =
               concat (map g [a..<b]) @ g b"
      using IH gb by simp
    finally show ?thesis using ab IH(1) Sb by simp
  qed
qed

lemma length_symbols_of_length:
  "length (symbols_of_length ls l) = codes_of_length ls l"
  by (simp add: symbols_of_length_def codes_of_length_index)

lemma build_Some:
  assumes n: "length ls \<le> 288" and h: "length (symbol h) = 288"
    and b: "png_huffman_build h ls = Some h'"
  shows "(\<forall>l<16. count h' ! l = codes_of_length ls l) \<and>
         (\<forall>l. 1 \<le> l \<and> l \<le> 15 \<longrightarrow>
            take (codes_of_length ls l) (drop (first_slot ls l) (symbol h')) =
            symbols_of_length ls l) \<and>
         drop (first_slot ls 16) (symbol h') = drop (first_slot ls 16) (symbol h) \<and>
         length (symbol h') = 288"
proof -
  from b obtain cnt where c: "count_lengths ls (replicate 16 0) = Some cnt"
    by (auto simp: png_huffman_build_def split: option.splits)
  then have all15: "\<forall>x\<in>set ls. unat x \<le> 15"
    using count_lengths_None [of ls "replicate 16 0"] by (auto simp: not_less)
  have "\<forall>l<16. replicate 16 0 ! l + codes_of_length ls l < 65536"
  proof (intro allI impI)
    fix l :: nat
    have "codes_of_length ls l \<le> 288"
      using codes_of_length_le [of ls l] n by simp
    then show "replicate 16 0 ! l + codes_of_length ls l < 65536" if "l < 16"
      using that by simp
  qed
  from count_lengths_Some [OF c _ this]
  have cnt: "\<forall>l<16. cnt ! l = codes_of_length ls l" by simp
  define offs where "offs = fold (offs_step cnt) [1..<15] (replicate 16 0)"
  define st where "st = fold (place_step ls) [0..<length ls] (offs, symbol h)"
  from b c have h': "h' = \<lparr>count = cnt, symbol = snd st\<rparr>"
    by (auto simp: png_huffman_build_def Let_def offs_def st_def split: if_splits)
  from fold_offs_step [OF cnt n, of 15]
  have o: "length offs = 16" "\<forall>l. 1 \<le> l \<and> l \<le> 15 \<longrightarrow> offs ! l = first_slot ls l"
    by (simp_all add: offs_def)
  from place_invariant [OF all15 _ n o, of "symbol h" "length ls"] n h
  have len: "length (snd st) = 288"
    and syms: "\<And>l j. 1 \<le> l \<Longrightarrow> l \<le> 15 \<Longrightarrow> j < codes_of_length ls l \<Longrightarrow>
       snd st ! (first_slot ls l + j) = symbols_of_length ls l ! j"
    and rest: "\<And>p. first_slot ls 16 \<le> p \<Longrightarrow> snd st ! p = symbol h ! p"
    by (simp_all add: st_def symbols_of_length_def codes_of_length_index)
  have grp: "take (codes_of_length ls l) (drop (first_slot ls l) (snd st)) = symbols_of_length ls l"
    if l: "1 \<le> l" "l \<le> 15" for l
  proof (rule nth_equalityI)
    have "first_slot ls l + codes_of_length ls l \<le> 288"
      using first_slot_end [OF l(1), of ls] n by simp
    then show "length (take (codes_of_length ls l) (drop (first_slot ls l) (snd st))) =
               length (symbols_of_length ls l)"
      using len by (simp add: length_symbols_of_length)
    fix j assume "j < length (take (codes_of_length ls l) (drop (first_slot ls l) (snd st)))"
    then have j: "j < codes_of_length ls l" by simp
    then show "take (codes_of_length ls l) (drop (first_slot ls l) (snd st)) ! j =
               symbols_of_length ls l ! j"
      using syms [OF l j] \<open>first_slot ls l + codes_of_length ls l \<le> 288\<close> len by simp
  qed
  have "drop (first_slot ls 16) (snd st) = drop (first_slot ls 16) (symbol h)"
    using rest len h by (intro nth_equalityI) simp_all
  with cnt grp len show ?thesis by (simp add: h')
qed

text \<open>
  C8. \<^verbatim>\<open>png_huffman_build\<close> fails exactly when some code length exceeds 15 or the running
  Kraft count \<open>left\<close> goes negative at some length from 1 to 15. Every incomplete set
  (\<open>left > 0\<close> after length 15) of lengths up to 15 is accepted, and so is the array of
  zeros. An accepted build leaves in \<^verbatim>\<open>count\<close> the number of codes of each length and in
  \<^verbatim>\<open>symbol[]\<close> the symbols of non-zero length, grouped by length from 1 to 15, each
  group in increasing symbol order and starting where the shorter ones end. (The callers
  pass at most 288 lengths, the size of \<^verbatim>\<open>symbol[]\<close>.)
\<close>

theorem huffman_build_spec:
  assumes "length lengths \<le> 288" and "length (symbol h) = 288"
  shows "(png_huffman_build h lengths = None \<longleftrightarrow>
            (\<exists>x\<in>set lengths. 15 < unat x) \<or> (\<exists>k\<in>{1..15}. kraft_left lengths k < 0)) \<and>
         ((\<forall>x\<in>set lengths. unat x \<le> 15) \<and> 0 < kraft_left lengths 15 \<longrightarrow>
            png_huffman_build h lengths \<noteq> None) \<and>
         png_huffman_build h (replicate (length lengths) 0) \<noteq> None \<and>
         (\<forall>h'. png_huffman_build h lengths = Some h' \<longrightarrow>
            (\<forall>l<16. count h' ! l = codes_of_length lengths l) \<and>
            take (first_slot lengths 16) (symbol h') =
              concat (map (symbols_of_length lengths) [1..<16]) \<and>
            (\<forall>l\<in>{1..15}. take (codes_of_length lengths l)
                             (drop (first_slot lengths l) (symbol h')) =
                           symbols_of_length lengths l))"
proof -
  have iff: "png_huffman_build h lengths = None \<longleftrightarrow>
            (\<exists>x\<in>set lengths. 15 < unat x) \<or> (\<exists>k\<in>{1..15}. kraft_left lengths k < 0)"
    using assms(1) by (rule build_None_iff)
  have incomplete: "(\<forall>x\<in>set lengths. unat x \<le> 15) \<and> 0 < kraft_left lengths 15 \<longrightarrow>
            png_huffman_build h lengths \<noteq> None"
  proof
    assume a: "(\<forall>x\<in>set lengths. unat x \<le> 15) \<and> 0 < kraft_left lengths 15"
    have "\<not> kraft_left lengths k < 0" if "k \<in> {1..15}" for k
      using kraft_left_stays_negative [of lengths k 15] a that by auto
    with a iff show "png_huffman_build h lengths \<noteq> None"
      by (auto simp: not_less)
  qed
  have "\<not> kraft_left (replicate (length lengths) 0) k < 0" for k
    by (simp add: kraft_left_zeros)
  then have zeros: "png_huffman_build h (replicate (length lengths) 0) \<noteq> None"
    using build_None_iff [of "replicate (length lengths) 0" h] assms(1) by simp
  have placed: "\<forall>h'. png_huffman_build h lengths = Some h' \<longrightarrow>
            (\<forall>l<16. count h' ! l = codes_of_length lengths l) \<and>
            take (first_slot lengths 16) (symbol h') =
              concat (map (symbols_of_length lengths) [1..<16]) \<and>
            (\<forall>l\<in>{1..15}. take (codes_of_length lengths l)
                             (drop (first_slot lengths l) (symbol h')) =
                           symbols_of_length lengths l)"
  proof (intro allI impI)
    fix h' assume b: "png_huffman_build h lengths = Some h'"
    note r = build_Some [OF assms b]
    have "take (first_slot lengths 16 - first_slot lengths 1)
            (drop (first_slot lengths 1) (symbol h')) =
          concat (map (symbols_of_length lengths) [1..<16])"
      using r
      by (intro concat_groups [THEN conjunct2])
         (simp_all add: length_symbols_of_length first_slot_Suc)
    then have "take (first_slot lengths 16) (symbol h') =
          concat (map (symbols_of_length lengths) [1..<16])"
      by (simp add: first_slot_def)
    with r show "(\<forall>l<16. count h' ! l = codes_of_length lengths l) \<and>
            take (first_slot lengths 16) (symbol h') =
              concat (map (symbols_of_length lengths) [1..<16]) \<and>
            (\<forall>l\<in>{1..15}. take (codes_of_length lengths l)
                             (drop (first_slot lengths l) (symbol h')) =
                           symbols_of_length lengths l)"
      by simp
  qed
  from iff incomplete zeros placed show ?thesis by (intro conjI)
qed

lemma kraft_left_numeral:
  "kraft_left ls (numeral v) =
   2 * kraft_left ls (pred_numeral v) - int (codes_of_length ls (numeral v))"
  by (simp add: numeral_eq_Suc)

lemma small_code_facts:
  "\<forall>x\<in>set [2, 1, 0 :: byte]. unat x \<le> 15"
  "kraft_left [2, 1, 0] 15 = 8192"
  "first_slot [2, 1, 0] 16 = 2"
  "concat (map (symbols_of_length [2, 1, 0]) [1..<16]) = [1, 0]"
  "kraft_left [1, 1, 1] 1 = - 1"
  by (simp_all add: codes_of_length_def first_slot_def symbols_of_length_def kraft_left_numeral
      upt_rec)

theorem huffman_build_spec_witness:
  "(\<exists>h'. png_huffman_build huffman_uninit [2, 1, 0] = Some h' \<and>
         take 2 (symbol h') = [1, 0]) \<and>
   png_huffman_build huffman_uninit [1, 1, 1] = None \<and>
   png_huffman_build huffman_uninit [16] = None"
proof -
  have u: "length (symbol huffman_uninit) = 288" by (simp add: huffman_uninit_def)
  note t1 = huffman_build_spec [of "[2, 1, 0]" huffman_uninit, OF _ u]
  note t2 = huffman_build_spec [of "[1, 1, 1]" huffman_uninit, OF _ u]
  note t3 = huffman_build_spec [of "[16]" huffman_uninit, OF _ u]
  from t1 small_code_facts(1,2) obtain h' where
    h': "png_huffman_build huffman_uninit [2, 1, 0] = Some h'"
    by (cases "png_huffman_build huffman_uninit [2, 1, 0]") simp_all
  with t1 small_code_facts(3,4) have "take 2 (symbol h') = [1, 0]" by simp
  moreover have "\<exists>k\<in>{1..15}. kraft_left [1, 1, 1] k < (0 :: int)"
    using small_code_facts(5) by (intro bexI [of _ 1]) simp_all
  with t2 have "png_huffman_build huffman_uninit [1, 1, 1] = None"
    by simp
  moreover from t3 have "png_huffman_build huffman_uninit [16] = None" by simp
  ultimately show ?thesis using h' by simp
qed

section \<open>The chunk loop\<close>

lemma be32_word: 
  "push_bit 24 (ucast (ucast (drop_bit 24 x) :: byte)) OR
   push_bit 16 (ucast (ucast (drop_bit 16 x) :: byte)) OR
   push_bit 8 (ucast (ucast (drop_bit 8 x) :: byte)) OR
   ucast (ucast x :: byte) = (x :: u32)"
proof (rule bit_word_eqI)
  fix n :: nat
  assume "n < LENGTH(32)"
  then have n: "n < 32" by simp
  consider "n < 8" | "8 \<le> n \<and> n < 16" | "16 \<le> n \<and> n < 24" | "24 \<le> n \<and> n < 32"
    using n by linarith
  then show "bit (push_bit 24 (ucast (ucast (drop_bit 24 x) :: byte)) OR
   push_bit 16 (ucast (ucast (drop_bit 16 x) :: byte)) OR
   push_bit 8 (ucast (ucast (drop_bit 8 x) :: byte)) OR
   ucast (ucast x :: byte) :: u32) n = bit x n"
    by cases (auto simp: bit_simps)
qed

lemma length_be32 [simp]: "length (be32 x) = 4"
  by (simp add: be32_def)

lemma png_read_be32_mem_be32 [simp]:
  "png_read_be32_mem (be32 x @ post) 0 = x"
  by (simp add: png_read_be32_mem_def be32_def be32_word)

lemma read_be32_shift:
  "png_read_be32_mem (a @ post) (length a + k) = png_read_be32_mem post k"
  by (simp add: png_read_be32_mem_def nth_append)

lemma chunk_step_append:
  "chunk_step (a @ post) (length a + k) st =
   map_option (\<lambda>(p, s). (length a + p, s)) (chunk_step post k st)"
proof -
  have rd: "png_read_be32_mem (a @ post) (length a + (k + j)) = png_read_be32_mem post (k + j)" for j
    by (rule read_be32_shift)
  have rd0: "png_read_be32_mem (a @ post) (length a + k) = png_read_be32_mem post k"
    by (rule read_be32_shift)
  show ?thesis
    unfolding chunk_step_def Let_def
    by (simp add: rd rd0 nth_append add.assoc)
qed

lemma read_chunks_append:
  "read_chunks (a @ post) (length a + k) st = read_chunks post k st"
proof (induction post k st rule: read_chunks.induct)
  case (1 d pos st)
  have lhs: "read_chunks (a @ d) (length a + pos) st =
     (case chunk_step (a @ d) (length a + pos) st of
        None \<Rightarrow> st | Some (pos', st') \<Rightarrow> read_chunks (a @ d) pos' st')"
    by (rule read_chunks.simps)
  have rhs: "read_chunks d pos st =
     (case chunk_step d pos st of None \<Rightarrow> st | Some (pos', st') \<Rightarrow> read_chunks d pos' st')"
    by (rule read_chunks.simps)
  show ?case
  proof (cases "chunk_step d pos st")
    case None
    then show ?thesis
      unfolding lhs rhs by (simp add: chunk_step_append)
  next
    case (Some r)
    obtain pos' st' where r: "r = (pos', st')" by (cases r)
    from "1.IH" [OF Some [unfolded r]] Some r show ?thesis
      unfolding lhs rhs by (simp add: chunk_step_append)
  qed
qed

lemma read_chunks_append0: "read_chunks (a @ post) (length a) st = read_chunks post 0 st"
  using read_chunks_append [of a post 0 st] by simp

text \<open>A chunk as it lies in a file: length, type, payload and the four bytes of a CRC.\<close>

definition chunk_bytes :: "byte list \<Rightarrow> byte list \<Rightarrow> u32 \<Rightarrow> byte list" where
  "chunk_bytes ctype payload crc = be32 (of_nat (length payload)) @ ctype @ payload @ be32 crc"

text \<open>What the loop does with a chunk of a given type and payload, as a function of the
  state: \<open>None\<close> when the loop ends at this chunk.\<close>

definition chunk_effect :: "byte list \<Rightarrow> byte list \<Rightarrow> chunks \<Rightarrow> chunks option" where
  "chunk_effect ctype payload st =
     (if ctype = type_IHDR then
        (if length payload < 13 then None
         else Some (st\<lparr>ihdr_width := png_read_be32_mem payload 0,
                       ihdr_height := png_read_be32_mem payload 4,
                       color_type := payload ! 9\<rparr>))
      else if ctype = type_IDAT then
        Some (st\<lparr>idat_data := Some ((case idat_data st of None \<Rightarrow> [] | Some z \<Rightarrow> z) @ payload)\<rparr>)
      else if ctype = type_IEND then None
      else Some st)"

lemma length_types [simp]:
  "length type_IHDR = 4" "length type_IDAT = 4" "length type_IEND = 4" "length type_tEXt = 4"
  by (simp_all add: type_IHDR_def type_IDAT_def type_IEND_def type_tEXt_def)

lemma length_chunk_bytes: "length t = 4 \<Longrightarrow> length (chunk_bytes t p crc) = 12 + length p"
  by (simp add: chunk_bytes_def)

lemma chunk_bytes_len: "png_read_be32_mem (chunk_bytes t p crc @ post) 0 = of_nat (length p)"
  by (simp add: chunk_bytes_def)

lemma chunk_bytes_type: "length t = 4 \<Longrightarrow> take 4 (drop 4 (chunk_bytes t p crc)) = t"
  by (simp add: chunk_bytes_def)

lemma chunk_bytes_payload:
  "length t = 4 \<Longrightarrow> take (length p) (drop 8 (chunk_bytes t p crc)) = p"
  by (simp add: chunk_bytes_def)

lemma chunk_bytes_read:
  assumes "length t = 4" "j + 4 \<le> length p"
  shows "png_read_be32_mem (chunk_bytes t p crc @ post) (8 + j) = png_read_be32_mem p j"
proof -
  have "png_read_be32_mem ((be32 (of_nat (length p)) @ t) @ (p @ be32 crc @ post))
          (length (be32 (of_nat (length p)) @ t) + j)
        = png_read_be32_mem (p @ be32 crc @ post) j"
    by (rule read_be32_shift)
  also have "\<dots> = png_read_be32_mem p j"
    using assms(2) by (simp add: png_read_be32_mem_def nth_append)
  finally show ?thesis using assms(1) by (simp add: chunk_bytes_def)
qed

lemma chunk_bytes_nth:
  "length t = 4 \<Longrightarrow> j < length p \<Longrightarrow> (chunk_bytes t p crc @ post) ! (8 + j) = p ! j"
  by (simp add: chunk_bytes_def nth_append)

lemma chunk_step_chunk:
  assumes t: "length t = 4" and p: "length p < 2 ^ 32"
  shows "chunk_step (chunk_bytes t p crc @ post) 0 st =
         map_option (\<lambda>st'. (12 + length p, st')) (chunk_effect t p st)"
proof -
  have len: "unat (of_nat (length p) :: u32) = length p"
    using p by (simp add: unat_of_nat)
  note rd = chunk_bytes_read [where j = 0, simplified] chunk_bytes_read [where j = 4, simplified]
    chunk_bytes_nth [where j = 9, simplified]
  show ?thesis
    unfolding chunk_step_def chunk_effect_def Let_def
    using t
    by (simp add: len chunk_bytes_len chunk_bytes_type chunk_bytes_payload length_chunk_bytes rd)
qed

lemma read_chunks_chunk:
  assumes "length t = 4" and "length p < 2 ^ 32"
  shows "read_chunks (chunk_bytes t p crc @ post) 0 st =
         (case chunk_effect t p st of None \<Rightarrow> st | Some st' \<Rightarrow> read_chunks post 0 st')"
proof -
  have l: "length (chunk_bytes t p crc) = 12 + length p"
    using assms(1) by (simp add: chunk_bytes_def)
  show ?thesis
    using read_chunks_append [of "chunk_bytes t p crc" post 0] l
    by (subst read_chunks.simps) (simp add: chunk_step_chunk [OF assms] split: option.splits)
qed







text \<open>What \<^verbatim>\<open>png_load_mem\<close> does after the chunk loop.\<close>

definition finish_load :: "chunks \<Rightarrow> png_image option outcome" where
  "finish_load st =
     (let w = ihdr_width st; h = ihdr_height st
      in case idat_data st of
           None \<Rightarrow> Returns None
         | Some idat \<Rightarrow>
             if w = 0 \<or> h = 0 then Returns None
             else
               (case (if color_type st = 0 then Some 1
                      else if color_type st = 2 then Some 3
                      else if color_type st = 4 then Some 2
                      else if color_type st = 6 then Some 4
                      else None) of
                  None \<Rightarrow> Returns None
                | Some c \<Rightarrow>
                    (let raw_len = size_t_of_int (h * (1 + w * c))
                     in case png_inflate_zlib idat raw_len of
                          None \<Rightarrow> Returns None
                        | Some raw \<Rightarrow>
                            (case png_create w h c of
                               None \<Rightarrow> Returns None
                             | Some img \<Rightarrow>
                                 bind_outcome
                                   (load_rows w h c (1 + w * c) 0 None raw (data img))
                                   (\<lambda>pixels. Returns (Some (img\<lparr>data := pixels\<rparr>)))))))"

definition no_chunks :: chunks where
  "no_chunks = \<lparr>ihdr_width = 0, ihdr_height = 0, color_type = 0, idat_data = None\<rparr>"

lemma png_load_mem_signature:
  "png_load_mem (signature @ rest) = finish_load (read_chunks rest 0 no_chunks)"
proof -
  have l: "length signature = 8" by (simp add: signature_def)
  have "read_chunks (signature @ rest) 8 no_chunks = read_chunks rest 0 no_chunks"
    using read_chunks_append0 [of signature rest] l by simp
  then show ?thesis
    using l by (simp add: png_load_mem_def finish_load_def no_chunks_def Let_def)
qed


section \<open>What the chunk loop does not check\<close>



















lemma ihdr_effect:
  "chunk_effect type_IHDR (be32 w @ be32 h @ depth # ct # cm # fm # il # extra) st =
   Some (st\<lparr>ihdr_width := w, ihdr_height := h, color_type := ct\<rparr>)"
proof -
  have h: "png_read_be32_mem (be32 w @ be32 h @ depth # ct # cm # fm # il # extra) 4 = h"
    using read_be32_shift [of "be32 w" "be32 h @ depth # ct # cm # fm # il # extra" 0]
    by simp
  have ct: "(be32 w @ be32 h @ depth # ct # cm # fm # il # extra) ! 9 = ct"
    by (simp add: nth_append)
  show ?thesis
    by (simp add: chunk_effect_def h ct)
qed

section \<open>Inflating stored blocks\<close>

lemma le16_bit:
  fixes bl :: "64 word"
  assumes "bl \<le> 0xffff" "16 \<le> n"
  shows "\<not> bit bl n"
proof -
  have "bl < 2 ^ 16" using assms(1) by (simp add: word_less_nat_alt word_le_nat_alt)
  then show ?thesis
    using assms(2) by (metis bit_take_bit_iff less_mask_eq take_bit_eq_mask not_le)
qed

lemma ucast_and_ff: "(ucast (x AND 0xff) :: byte) = ucast (x :: 64 word)"
proof -
  have m: "(0xff :: 64 word) = mask 8" by (simp add: mask_eq_exp_minus_1)
  show ?thesis unfolding m by (rule bit_word_eqI) (auto simp: bit_simps)
qed

lemma stored_len_word:
  fixes bl :: "64 word"
  assumes "bl \<le> 0xffff"
  shows "(ucast (ucast (bl AND 0xff) :: byte) :: u32) OR
         push_bit 8 (ucast (ucast (drop_bit 8 bl AND 0xff) :: byte)) = ucast bl"
  unfolding ucast_and_ff
proof (rule bit_word_eqI)
  fix n :: nat
  assume "n < LENGTH(32)"
  then have n: "n < 32" by simp
  consider "n < 8" | "8 \<le> n \<and> n < 16" | "16 \<le> n"
    by linarith
  then show "bit ((ucast (ucast bl :: byte) :: u32) OR
         push_bit 8 (ucast (ucast (drop_bit 8 bl) :: byte))) n = bit (ucast bl :: u32) n"
  proof cases
    case 1
    then show ?thesis using n by (auto simp: bit_simps)
  next
    case 2
    then show ?thesis using n by (auto simp: bit_simps)
  next
    case 3
    then show ?thesis using n le16_bit [OF assms, of n] by (auto simp: bit_simps)
  qed
qed

lemma stored_nlen_mask:
  fixes bl :: "64 word"
  assumes "bl \<le> 0xffff"
  shows "(ucast (ucast (NOT bl) :: byte) :: u32) OR
         push_bit 8 (ucast (ucast (drop_bit 8 (NOT bl)) :: byte)) = ucast bl XOR mask 16"
proof (rule bit_word_eqI)
  fix n :: nat
  assume "n < LENGTH(32)"
  then have n: "n < 32" by simp
  consider "n < 8" | "8 \<le> n \<and> n < 16" | "16 \<le> n"
    by linarith
  then show "bit ((ucast (ucast (NOT bl) :: byte) :: u32) OR
         push_bit 8 (ucast (ucast (drop_bit 8 (NOT bl)) :: byte))) n =
         bit ((ucast bl :: u32) XOR mask 16) n"
  proof cases
    case 1
    then show ?thesis using n by (auto simp: bit_simps)
  next
    case 2
    then show ?thesis using n by (auto simp: bit_simps)
  next
    case 3
    then show ?thesis using n le16_bit [OF assms, of n] by (auto simp: bit_simps)
  qed
qed

lemma stored_nlen_word:
  fixes bl :: "64 word"
  assumes "bl \<le> 0xffff"
  shows "(ucast (ucast (NOT bl AND 0xff) :: byte) :: u32) OR
         push_bit 8 (ucast (ucast (drop_bit 8 (NOT bl) AND 0xff) :: byte)) = ucast bl XOR 0xffff"
  using stored_nlen_mask [OF assms] by (simp add: ucast_and_ff mask_eq_exp_minus_1)

lemma word16_get:
  fixes b0 b1 :: byte
  defines "v \<equiv> (ucast b0 :: u32) OR push_bit 8 (ucast b1)"
  shows "v AND (push_bit 16 1 - 1) = v" and "drop_bit 16 v = 0"
proof -
  have m: "(push_bit 16 1 - 1 :: u32) = mask 16" by (simp add: mask_eq_exp_minus_1)
  show "v AND (push_bit 16 1 - 1) = v"
    unfolding m v_def by (rule bit_word_eqI) (auto simp: bit_simps dest: bit_imp_le_length)
  show "drop_bit 16 v = 0"
    unfolding v_def by (rule bit_word_eqI) (auto simp: bit_simps dest: bit_imp_le_length)
qed

text \<open>A bit stream at a byte boundary with an empty register.\<close>

definition aligned :: "byte list \<Rightarrow> nat \<Rightarrow> png_bitstream" where
  "aligned d p = \<lparr>bs_data = d, bytepos = p, bitbuf = 0, bitcount = 0\<rparr>"

lemma fill_one:
  assumes "p < length d" "0 < n" "n \<le> 8"
  shows "fill_loop (aligned d p) n =
         \<lparr>bs_data = d, bytepos = p + 1, bitbuf = ucast (d ! p), bitcount = 8\<rparr>"
  using assms
  by (subst fill_loop.simps, subst fill_loop.simps) (simp add: aligned_def)

lemma fill_two:
  assumes "p + 2 \<le> length d"
  shows "fill_loop (aligned d p) 16 =
         \<lparr>bs_data = d, bytepos = p + 2,
          bitbuf = ucast (d ! p) OR push_bit 8 (ucast (d ! (p + 1))), bitcount = 16\<rparr>"
  using assms
  by (subst fill_loop.simps, subst fill_loop.simps, subst fill_loop.simps)
     (simp add: aligned_def)

lemma get16_aligned:
  assumes "p + 2 \<le> length d"
  shows "png_bitstream_get (aligned d p) 16 =
         Some (ucast (d ! p) OR push_bit 8 (ucast (d ! (p + 1))), aligned d (p + 2))"
  using word16_get [of "d ! p" "d ! (p + 1)"]
  unfolding png_bitstream_get_def png_bitstream_fill_def fill_two [OF assms]
  by (simp add: aligned_def)

lemma fill_loop_enough: "n \<le> bitcount bs \<Longrightarrow> fill_loop bs n = bs"
  by (subst fill_loop.simps) simp

lemma header_aligned:
  assumes "p < length d" "d ! p = 0 \<or> d ! p = 1"
  shows "\<exists>s1 s2. png_bitstream_get (aligned d p) 1 = Some (ucast (d ! p), s1) \<and>
                 png_bitstream_get s1 2 = Some (0, s2) \<and>
                 png_bitstream_align s2 = Some (aligned d (p + 1))"
proof -
  have g1: "png_bitstream_get (aligned d p) 1 =
            Some (ucast (d ! p),
                  \<lparr>bs_data = d, bytepos = p + 1, bitbuf = 0, bitcount = 7\<rparr>)"
    using assms(2) fill_one [OF assms(1), of "Suc 0"]
    by (auto simp: png_bitstream_get_def png_bitstream_fill_def)
  have g2: "png_bitstream_get \<lparr>bs_data = d, bytepos = p + 1, bitbuf = 0, bitcount = 7\<rparr> 2 =
            Some (0, \<lparr>bs_data = d, bytepos = p + 1, bitbuf = 0, bitcount = 5\<rparr>)"
    by (simp add: png_bitstream_get_def png_bitstream_fill_def fill_loop_enough)
  have g3: "png_bitstream_align \<lparr>bs_data = d, bytepos = p + 1, bitbuf = 0, bitcount = 5\<rparr> =
            Some (aligned d (p + 1))"
    by (simp add: png_bitstream_align_def png_bitstream_get_def png_bitstream_fill_def
        fill_loop_enough aligned_def)
  from g1 g2 g3 show ?thesis by blast
qed

lemma read_bytes_aligned:
  assumes "p + n \<le> length d"
  shows "png_bitstream_read_bytes (aligned d p) n =
         Some (take n (drop p d), aligned d (p + n))"
  using assms by (simp add: png_bitstream_read_bytes_def aligned_def)

declare store_blocks.simps [simp del]

lemma store_blocks_Nil [simp]: "store_blocks [] = []"
  by (simp add: store_blocks.simps)

lemma of_nat_le_16:
  assumes "n \<le> 65535"
  shows "(of_nat n :: 64 word) \<le> 0xffff" "unat (ucast (of_nat n :: 64 word) :: u32) = n"
proof -
  have u: "unat (of_nat n :: 64 word) = n"
    using assms by (simp add: unat_of_nat)
  then show "(of_nat n :: 64 word) \<le> 0xffff"
    using assms by (simp add: word_le_nat_alt)
  show "unat (ucast (of_nat n :: 64 word) :: u32) = n"
    using assms u by (simp add: unsigned_ucast_eq take_bit_nat_eq_self)
qed

lemma stored_block:
  fixes bl :: "64 word"
  assumes hdr: "take 5 (drop p d) =
                [f, ucast (bl AND 0xff), ucast (drop_bit 8 bl AND 0xff),
                 ucast (NOT bl AND 0xff), ucast (drop_bit 8 (NOT bl) AND 0xff)]"
    and bl: "bl = of_nat n" "n \<le> 65535"
    and f: "f = 0 \<or> f = 1"
    and len: "p + 5 + n \<le> length d"
    and room: "length out + n \<le> el"
  shows "inflate_blocks (aligned d p) out el =
         (if f = 1 then Some (aligned d (p + 5 + n), out @ take n (drop (p + 5) d))
          else inflate_blocks (aligned d (p + 5 + n)) (out @ take n (drop (p + 5) d)) el)"
proof -
  have nth: "take 5 (drop p d) ! i = d ! (p + i)" if "i < 5" for i
    using that len by simp
  have b0: "d ! p = f"
    using nth [of 0] by (simp add: hdr)
  have b1: "d ! (p + 1) = ucast (bl AND 0xff)"
    using nth [of 1] by (simp add: hdr)
  have b2: "d ! (p + 2) = ucast (drop_bit 8 bl AND 0xff)"
    using nth [of 2] by (simp add: hdr)
  have b3: "d ! (p + 3) = ucast (NOT bl AND 0xff)"
    using nth [of 3] by (simp add: hdr)
  have b4: "d ! (p + 4) = ucast (drop_bit 8 (NOT bl) AND 0xff)"
    using nth [of 4] by (simp add: hdr)
  have le: "bl \<le> 0xffff" and un: "unat (ucast bl :: u32) = n"
    using of_nat_le_16 [OF bl(2)] bl(1) by simp_all
  from header_aligned [of p d] b0 f len obtain s1 s2 where
    g1: "png_bitstream_get (aligned d p) 1 = Some (ucast f, s1)" and
    g2: "png_bitstream_get s1 2 = Some (0, s2)" and
    al: "png_bitstream_align s2 = Some (aligned d (p + 1))"
    by auto
  have e: "p + 1 + 1 = p + 2" "p + 1 + 2 = p + 3" "p + 3 + 1 = p + 4" "p + 3 + 2 = p + 5"
    by simp_all
  have "png_bitstream_get (aligned d (p + 1)) 16 =
        Some (ucast (d ! (p + 1)) OR push_bit 8 (ucast (d ! (p + 1 + 1))), aligned d (p + 1 + 2))"
    by (rule get16_aligned) (use len in simp)
  then have g3: "png_bitstream_get (aligned d (p + 1)) 16 =
                 Some (ucast bl, aligned d (p + 3))"
    unfolding e b1 b2 stored_len_word [OF le] .
  have "png_bitstream_get (aligned d (p + 3)) 16 =
        Some (ucast (d ! (p + 3)) OR push_bit 8 (ucast (d ! (p + 3 + 1))), aligned d (p + 3 + 2))"
    by (rule get16_aligned) (use len in simp)
  then have g4: "png_bitstream_get (aligned d (p + 3)) 16 =
                 Some (ucast bl XOR 0xffff, aligned d (p + 5))"
    unfolding e b3 b4 stored_nlen_word [OF le] .
  have rd: "png_bitstream_read_bytes (aligned d (p + 5)) n =
            Some (take n (drop (p + 5) d), aligned d (p + 5 + n))"
    using read_bytes_aligned [of "p + 5" n d] len by simp
  have blk: "inflate_block s2 0 out el = Some (aligned d (p + 5 + n), out @ take n (drop (p + 5) d))"
    using room al g3 g4 un rd by (simp add: inflate_block_def)
  have fz: "(ucast f :: u32) \<noteq> 0 \<longleftrightarrow> f = 1"
    using f by auto
  show ?thesis
    using g1 g2 blk fz by (subst inflate_blocks.simps) simp
qed


lemma inflate_store_blocks:
  assumes "src \<noteq> []" "length out + length src \<le> el"
  shows "inflate_blocks (aligned (pre @ store_blocks src) (length pre)) out el =
         Some (aligned (pre @ store_blocks src) (length pre + length (store_blocks src)),
               out @ src)"
  using assms
proof (induction "length src" arbitrary: src pre out rule: less_induct)
  case less
  define n where "n = (if length src > 65535 then 65535 else length src)"
  define f :: byte where "f = (if length src \<le> 65535 then 1 else 0)"
  define bl :: "64 word" where "bl = of_nat n"
  define hdr where "hdr = [f, ucast (bl AND 0xff), ucast (drop_bit 8 bl AND 0xff),
                           ucast (NOT bl AND 0xff), ucast (drop_bit 8 (NOT bl) AND 0xff)]"
  define d where "d = pre @ store_blocks src"
  have pos: "0 < length src" using less.prems(1) by simp
  have sb: "store_blocks src = hdr @ take n src @ store_blocks (drop n src)"
    using pos store_blocks.simps [of src]
    by (simp add: Let_def n_def f_def bl_def hdr_def)
  have n: "n \<le> 65535" "n \<le> length src" "0 < n"
    using pos by (simp_all add: n_def)
  have lh: "length hdr = 5" by (simp add: hdr_def)
  have d: "d = pre @ hdr @ take n src @ store_blocks (drop n src)"
    by (simp add: d_def sb)
  have h: "take 5 (drop (length pre) d) = hdr"
    by (simp add: d lh)
  have body: "take n (drop (length pre + 5) d) = take n src"
    using n(2) by (simp add: d lh)
  have step: "inflate_blocks (aligned d (length pre)) out el =
         (if f = 1 then Some (aligned d (length pre + 5 + n), out @ take n src)
          else inflate_blocks (aligned d (length pre + 5 + n)) (out @ take n src) el)"
    unfolding body [symmetric]
  proof (rule stored_block)
    show "take 5 (drop (length pre) d) =
          [f, ucast (bl AND 0xff), ucast (drop_bit 8 bl AND 0xff),
           ucast (NOT bl AND 0xff), ucast (drop_bit 8 (NOT bl) AND 0xff)]"
      by (simp add: h hdr_def)
    show "bl = of_nat n" by (rule bl_def)
    show "n \<le> 65535" by (rule n(1))
    show "f = 0 \<or> f = 1" by (simp add: f_def)
    show "length pre + 5 + n \<le> length d" using n(2) by (simp add: d lh)
    show "length out + n \<le> el" using less.prems(2) n(2) by simp
  qed
  show ?case
  proof (cases "length src \<le> 65535")
    case True
    then have nf: "n = length src" "f = 1" by (simp_all add: n_def f_def)
    then have "length (store_blocks src) = 5 + length src"
      by (simp add: sb lh)
    with nf step show ?thesis
      by (simp add: d_def add.assoc)
  next
    case False
    then have f0: "f \<noteq> 1" and nn: "n = 65535" by (simp_all add: f_def n_def)
    have "inflate_blocks (aligned ((pre @ hdr @ take n src) @ store_blocks (drop n src))
                            (length (pre @ hdr @ take n src))) (out @ take n src) el =
          Some (aligned ((pre @ hdr @ take n src) @ store_blocks (drop n src))
                  (length (pre @ hdr @ take n src) + length (store_blocks (drop n src))),
                (out @ take n src) @ drop n src)"
      using False less.prems(2) n by (intro less.hyps) (simp_all add: nn)
    moreover have "length (pre @ hdr @ take n src) = length pre + 5 + n"
      using n(2) by (simp add: lh)
    ultimately have "inflate_blocks (aligned d (length pre + 5 + n)) (out @ take n src) el =
          Some (aligned d (length pre + length (store_blocks src)), out @ src)"
      using n(2) by (simp add: d sb lh add.assoc)
    with step f0 show ?thesis by (simp add: d_def)
  qed
qed

lemma length_store_blocks_ge: "length src \<le> length (store_blocks src)"
proof (induction "length src" arbitrary: src rule: less_induct)
  case less
  show ?case
  proof (cases "src = []")
    case True
    then show ?thesis by simp
  next
    case False
    define n where "n = (if length src > 65535 then 65535 else length src)"
    have n: "0 < n" "n \<le> length src" using False by (simp_all add: n_def)
    then have "length (drop n src) \<le> length (store_blocks (drop n src))"
      by (intro less.hyps) simp
    then show ?thesis
      using False n by (subst store_blocks.simps) (simp add: Let_def n_def)
  qed
qed

lemma inflate_deflate_store:
  assumes "src \<noteq> []" "malloc_ok (length src)"
  shows "png_inflate_zlib ([0x78, 0x01] @ store_blocks src @ be32 (png_adler32 src))
           (length src) = Some src"
proof -
  define z where "z = [0x78, 0x01] @ store_blocks src @ be32 (png_adler32 src)"
  have lz: "length z = length (store_blocks src) + 6" by (simp add: z_def)
  have b: "z ! 0 = 0x78" "z ! 1 = 0x01" by (simp_all add: z_def)
  have pay: "take (length (store_blocks src)) (drop 2 z) = store_blocks src"
    by (simp add: z_def)
  have "png_read_be32_mem (([0x78, 0x01] @ store_blocks src) @ be32 (png_adler32 src) @ [])
          (length ([0x78, 0x01] @ store_blocks src) + 0) =
        png_read_be32_mem (be32 (png_adler32 src) @ []) 0"
    by (rule read_be32_shift)
  moreover have "png_read_be32_mem (be32 (png_adler32 src) @ []) 0 = png_adler32 src"
    by (rule png_read_be32_mem_be32)
  ultimately have ad: "png_read_be32_mem z (length z - 4) = png_adler32 src"
    by (simp add: z_def)
  have "inflate_blocks (aligned ([] @ store_blocks src) (length ([] :: byte list))) []
          (length src) =
        Some (aligned ([] @ store_blocks src)
                (length ([] :: byte list) + length (store_blocks src)), [] @ src)"
    using assms(1) by (intro inflate_store_blocks) simp_all
  then have ib: "inflate_blocks
          \<lparr>bs_data = store_blocks src, bytepos = 0, bitbuf = 0, bitcount = 0\<rparr> []
          (length src) =
        Some (aligned (store_blocks src) (length (store_blocks src)), src)"
    by (simp add: aligned_def)
  have c1: "(0x78 :: byte) AND 0x0f = 8" by simp
  have c2: "(0x01 :: byte) AND 0x20 = 0" by simp
  have "png_inflate_zlib z (length src) = Some src"
    unfolding png_inflate_zlib_def Let_def b c1 c2
    using assms(2) ad by (simp add: lz pay ib)
  then show ?thesis by (simp add: z_def)
qed

section \<open>A back-reference in the symbol loop\<close>

text \<open>
  C6. Take an iteration of the symbol loop that decodes a back-reference: a length
  symbol \<open>257 \<le> symb \<le> 285\<close> with its extra bits, then a distance symbol below 30 with its
  extra bits, so that \<open>length = len_base[symb - 257] + extra\<close> and
  \<open>distance = dist_base[dist_sym] + extra\<close>. Unless \<open>1 \<le> distance \<le> bytes written\<close> and
  \<open>bytes written + length \<le> expected_len\<close>, the iteration fails, and the symbol loop with
  it. When both hold, the iteration goes on after the distance bits with \<open>length\<close> more
  bytes of output, the bytes written before unchanged, and each new byte equal to the
  byte \<open>distance\<close> positions before it in the output as it then is: a copy longer than its
  distance reads bytes it has just written.
\<close>

theorem back_reference_copy:
  fixes symb dist_sym :: nat and extra dx :: u32 and len distance :: nat
  assumes "png_huffman_decode bs litlen = Some (symb, bs1)"
    and "257 \<le> symb" and "symb \<le> 285"
    and "(if len_extra ! (symb - 257) \<noteq> 0
          then png_bitstream_get bs1 (len_extra ! (symb - 257))
          else Some (0, bs1)) = Some (extra, bs2)"
    and "png_huffman_decode bs2 dist = Some (dist_sym, bs3)"
    and "dist_sym < 30"
    and "(if dist_extra ! dist_sym \<noteq> 0
          then png_bitstream_get bs3 (dist_extra ! dist_sym)
          else Some (0, bs3)) = Some (dx, bs4)"
  defines "len \<equiv> len_base ! (symb - 257) + unat extra"
    and "distance \<equiv> dist_base ! dist_sym + unat dx"
  shows "(\<not> (1 \<le> distance \<and> distance \<le> length out \<and> length out + len \<le> el) \<longrightarrow>
            symbol_step litlen dist bs out el = None \<and>
            inflate_symbols litlen dist bs out el = None) \<and>
         (1 \<le> distance \<and> distance \<le> length out \<and> length out + len \<le> el \<longrightarrow>
            (\<exists>out'. symbol_step litlen dist bs out el = Some (False, bs4, out') \<and>
                    inflate_symbols litlen dist bs out el =
                      inflate_symbols litlen dist bs4 out' el \<and>
                    out' = lz77_copy out distance len \<and>
                    length out' = length out + len \<and>
                    take (length out) out' = out \<and>
                    (\<forall>i<len. out' ! (length out + i) = out' ! (length out + i - distance))))"
proof -
  have step: "symbol_step litlen dist bs out el =
        (case copy_match out distance len el of
           None \<Rightarrow> None | Some out' \<Rightarrow> Some (False, bs4, out'))"
    using assms(1-7) unfolding symbol_step_def Let_def len_def distance_def
    by (simp split: option.splits)
  show ?thesis
  proof (intro conjI impI)
    assume a: "\<not> (1 \<le> distance \<and> distance \<le> length out \<and> length out + len \<le> el)"
    then have "copy_match out distance len el = None"
      by (auto simp: copy_match_def)
    then show "symbol_step litlen dist bs out el = None"
      by (simp add: step)
    then show "inflate_symbols litlen dist bs out el = None"
      by (subst inflate_symbols.simps) simp
  next
    assume a: "1 \<le> distance \<and> distance \<le> length out \<and> length out + len \<le> el"
    then have "copy_match out distance len el = Some (lz77_copy out distance len)"
      by (auto simp: copy_match_def)
    then have s: "symbol_step litlen dist bs out el =
                  Some (False, bs4, lz77_copy out distance len)"
      by (simp add: step)
    then have l: "inflate_symbols litlen dist bs out el =
                  inflate_symbols litlen dist bs4 (lz77_copy out distance len) el"
      by (subst inflate_symbols.simps) simp
    have "\<forall>i<len. lz77_copy out distance len ! (length out + i) =
                   lz77_copy out distance len ! (length out + i - distance)"
      using a by (simp add: lz77_copy_overlap)
    with s l show "\<exists>out'. symbol_step litlen dist bs out el = Some (False, bs4, out') \<and>
                    inflate_symbols litlen dist bs out el =
                      inflate_symbols litlen dist bs4 out' el \<and>
                    out' = lz77_copy out distance len \<and>
                    length out' = length out + len \<and>
                    take (length out) out' = out \<and>
                    (\<forall>i<len. out' ! (length out + i) = out' ! (length out + i - distance))"
      by simp
  qed
qed

text \<open>Two small tables: the literal/length code has the one symbol 259 (length 5) with
  the code \<open>0\<close>, the distance code the symbols 0 and 1 with the codes \<open>0\<close> and \<open>1\<close>; the
  distance symbol 1 is the distance 2. The bits of the byte \<open>0x02\<close> are the length symbol
  and then the distance symbol 1.\<close>

definition one_length_code :: png_huffman where
  "one_length_code = \<lparr>count = 259 # 1 # replicate 14 0, symbol = 259 # replicate 287 0\<rparr>"

definition two_distance_code :: png_huffman where
  "two_distance_code = \<lparr>count = 0 # 2 # replicate 14 0, symbol = 0 # 1 # replicate 286 0\<rparr>"

lemma decode_back_reference:
  "png_huffman_decode \<lparr>bs_data = [0x02], bytepos = 0, bitbuf = 0, bitcount = 0\<rparr> one_length_code =
     Some (259, \<lparr>bs_data = [0x02], bytepos = 1, bitbuf = 1, bitcount = 7\<rparr>)"
  "png_huffman_decode \<lparr>bs_data = [0x02], bytepos = 1, bitbuf = 1, bitcount = 7\<rparr> two_distance_code =
     Some (1, \<lparr>bs_data = [0x02], bytepos = 1, bitbuf = 0, bitcount = 6\<rparr>)"
  by (simp_all add: png_huffman_decode_def decode_loop.simps png_bitstream_get_def
      png_bitstream_fill_def fill_loop.simps one_length_code_def two_distance_code_def Let_def)

theorem back_reference_copy_witness:
  "symbol_step one_length_code two_distance_code
     \<lparr>bs_data = [0x02], bytepos = 0, bitbuf = 0, bitcount = 0\<rparr> [0x41, 0x42] 7 =
     Some (False, \<lparr>bs_data = [0x02], bytepos = 1, bitbuf = 0, bitcount = 6\<rparr>,
           [0x41, 0x42, 0x41, 0x42, 0x41, 0x42, 0x41]) \<and>
   symbol_step one_length_code two_distance_code
     \<lparr>bs_data = [0x02], bytepos = 0, bitbuf = 0, bitcount = 0\<rparr> [0x41, 0x42] 6 = None \<and>
   symbol_step one_length_code two_distance_code
     \<lparr>bs_data = [0x02], bytepos = 0, bitbuf = 0, bitcount = 0\<rparr> [0x41] 7 = None"
proof -
  note t = back_reference_copy [OF decode_back_reference(1) _ _ _ decode_back_reference(2),
      where extra = 0 and dx = 0
        and ?bs4.0 = "\<lparr>bs_data = [0x02], bytepos = 1, bitbuf = 0, bitcount = 6\<rparr>"]
  from t [of "[0x41, 0x42]" 7] t [of "[0x41, 0x42]" 6] t [of "[0x41]" 7]
  show ?thesis
    by (simp add: len_extra_def dist_extra_def len_base_def dist_base_def lz77_copy_example)
qed

section \<open>What decoding checks before it allocates\<close>

text \<open>An input with the width field 0, otherwise the 1 by 1 image of \<open>png_zero_crc\<close>.\<close>

definition png_zero_width :: "byte list" where
  "png_zero_width =
     [0x89, 0x50, 0x4e, 0x47, 0x0d, 0x0a, 0x1a, 0x0a,
      0x00, 0x00, 0x00, 0x0d, 0x49, 0x48, 0x44, 0x52,
      0x00, 0x00, 0x00, 0x00, 0x00, 0x00, 0x00, 0x01, 0x08, 0x00, 0x00, 0x00, 0x00,
      0x00, 0x00, 0x00, 0x00,
      0x00, 0x00, 0x00, 0x0d, 0x49, 0x44, 0x41, 0x54,
      0x78, 0x01, 0x01, 0x02, 0x00, 0xfd, 0xff, 0x00, 0x07, 0x00, 0x09, 0x00, 0x08,
      0x00, 0x00, 0x00, 0x00,
      0x00, 0x00, 0x00, 0x00, 0x49, 0x45, 0x4e, 0x44, 0x00, 0x00, 0x00, 0x00]"

text \<open>
  C5 (amended). \<^verbatim>\<open>png_load_mem\<close> has no overflow check. Of the dimensions it tests only
  that the width and the height are not zero and that the colour type is 0, 2, 4 or 6;
  it then calls \<^verbatim>\<open>png_inflate_zlib\<close> with the value of its expression
  \<^verbatim>\<open>height * (1 + width * channels)\<close> and \<^verbatim>\<open>png_create\<close> with the three dimensions. So
  an input is rejected exactly when the signature or the IDAT data is missing, one of
  these three tests fails, or the inflation or \<^verbatim>\<open>png_create\<close> fails; and \<^verbatim>\<open>png_create\<close>
  fails exactly when the allocator refuses the size it is asked for.
\<close>

theorem no_overflow_check:
  fixes d :: "byte list"
  defines "st \<equiv> read_chunks d 8
                   \<lparr>ihdr_width = 0, ihdr_height = 0, color_type = 0, idat_data = None\<rparr>"
  defines "w \<equiv> ihdr_width st" and "h \<equiv> ihdr_height st"
  defines "c \<equiv> (if color_type st = 0 then 1 else if color_type st = 2 then 3
                 else if color_type st = 4 then 2 else 4 :: c_int)"
  shows "(png_load_mem d = Returns None \<longleftrightarrow>
            length d < 8 \<or> take 8 d \<noteq> signature \<or> idat_data st = None \<or>
            w = 0 \<or> h = 0 \<or> color_type st \<notin> {0, 2, 4, 6} \<or>
            png_inflate_zlib (the (idat_data st)) (size_t_of_int (h * (1 + w * c))) = None \<or>
            png_create w h c = None) \<and>
         (png_create w' h' c' = None \<longleftrightarrow> \<not> malloc_ok (size_t_of_int (w' * h' * c')))"
proof
  show "png_create w' h' c' = None \<longleftrightarrow> \<not> malloc_ok (size_t_of_int (w' * h' * c'))"
    by (simp add: png_create_def Let_def)
next
  have ct: "(if color_type st = 0 then Some 1
             else if color_type st = 2 then Some 3
             else if color_type st = 4 then Some 2
             else if color_type st = 6 then Some 4 else None) =
            (if color_type st \<in> {0, 2, 4, 6} then Some c else (None :: c_int option))"
    by (simp add: c_def)
  show "png_load_mem d = Returns None \<longleftrightarrow>
            length d < 8 \<or> take 8 d \<noteq> signature \<or> idat_data st = None \<or>
            w = 0 \<or> h = 0 \<or> color_type st \<notin> {0, 2, 4, 6} \<or>
            png_inflate_zlib (the (idat_data st)) (size_t_of_int (h * (1 + w * c))) = None \<or>
            png_create w h c = None"
    unfolding png_load_mem_def Let_def st_def [symmetric] w_def [symmetric] h_def [symmetric] ct
    by (auto simp: bind_outcome_def split: option.splits outcome.splits)
qed

theorem no_overflow_check_witness:
  "\<not> length png_overflow < 8 \<and> take 8 png_overflow = signature \<and>
   png_inflate_zlib (take 14 (drop 41 png_overflow))
     (size_t_of_int (1 * (1 + 0x80000001 * 2))) = Some [0, 7, 9] \<and>
   png_create 0x80000001 1 2 \<noteq> None \<and>
   png_load_mem png_overflow \<noteq> Returns None \<and>
   png_load_mem png_zero_width = Returns None \<and>
   png_create 0x40000000 2 1 = None"
proof -
  have st: "read_chunks png_overflow 8
              \<lparr>ihdr_width = 0, ihdr_height = 0, color_type = 0, idat_data = None\<rparr> =
            \<lparr>ihdr_width = 0x80000001, ihdr_height = 1, color_type = 4,
             idat_data = Some (take 14 (drop 41 png_overflow))\<rparr>"
    by (simp add: png_overflow_def read_chunks.simps chunk_step_def png_read_be32_mem_def
        type_IHDR_def type_IDAT_def type_IEND_def Let_def)
  have z: "png_inflate_zlib (take 14 (drop 41 png_overflow))
             (size_t_of_int (1 * (1 + 0x80000001 * 2))) = Some [0, 7, 9]"
    by (simp add: png_overflow_def eval_simps)
  have cr: "png_create 0x80000001 1 2 \<noteq> None"
    by (simp add: png_create_def size_t_of_int_def malloc_ok_def)
  have sg: "\<not> length png_overflow < 8" "take 8 png_overflow = signature"
    by (simp_all add: png_overflow_def signature_def)
  have st0: "ihdr_width (read_chunks png_zero_width 8
              \<lparr>ihdr_width = 0, ihdr_height = 0, color_type = 0, idat_data = None\<rparr>) = 0"
    by (simp add: png_zero_width_def read_chunks.simps chunk_step_def png_read_be32_mem_def
        type_IHDR_def type_IDAT_def type_IEND_def Let_def)
  have m: "\<not> malloc_ok (size_t_of_int (0x40000000 * 2 * 1))"
    by (simp add: size_t_of_int_def malloc_ok_def)
  from no_overflow_check [of png_overflow] st z cr sg
  have "png_load_mem png_overflow \<noteq> Returns None"
    by simp
  moreover from no_overflow_check [of png_zero_width] st0
  have "png_load_mem png_zero_width = Returns None"
    by simp
  moreover from no_overflow_check [of _ "0x40000000" 2 1] m
  have "png_create 0x40000000 2 1 = None"
    by simp
  ultimately show ?thesis
    using z cr sg by simp
qed

section \<open>The IHDR fields that decoding reads\<close>










lemma sint_of_nat_small:
  assumes "y < 2 ^ 31"
  shows "sint (of_nat y :: c_int) = int y"
proof -
  have "sint (of_nat y :: c_int) = signed_take_bit 31 (int y)"
    by (simp add: signed_of_nat)
  also have "\<dots> = int y"
    using assms by (intro signed_take_bit_int_eq_self) simp_all
  finally show ?thesis .
qed

lemma sint_add_in_range:
  fixes a b :: c_int
  assumes "- (2 ^ 31) \<le> sint a + sint b" "sint a + sint b < 2 ^ 31"
  shows "sint (a + b) = sint a + sint b"
  using assms by (simp add: sint_word_ariths signed_take_bit_int_eq_self)

lemma channels_range:
  fixes c :: c_int
  assumes "c \<in> {1, 2, 3, 4}"
  shows "1 \<le> sint c" "sint c \<le> 4"
  using assms by auto

text \<open>The sizes of an image whose filtered rows take at most \<open>2 ^ 31\<close> bytes, as the
  arithmetic of the encoder computes them: \<open>n\<close> is the length of a row of pixels and
  \<open>hh\<close> the number of rows.\<close>

lemma encoder_sizes:
  fixes w h c :: c_int
  assumes w: "1 \<le> sint w" and h: "1 \<le> sint h" and c: "c \<in> {1, 2, 3, 4}"
    and row: "1 + sint w * sint c < 2 ^ 31"
    and all: "sint h * (1 + sint w * sint c) \<le> 2 ^ 31"
  defines "n \<equiv> nat (sint w * sint c)" and "hh \<equiv> nat (sint h)"
  shows "0 < n" "0 < hh" "hh * (1 + n) \<le> 2 ^ 31"
    "sint (w * c) = int n" "sint (1 + w * c) = 1 + int n"
    "size_t_of_int (w * c) = n" "size_t_of_int (1 + w * c) = 1 + n" "size_t_of_int h = hh"
    "\<forall>y<hh. sint (of_nat y * w * c) = int (y * n)"
proof -
  note cr = channels_range [OF c]
  have wc: "1 \<le> sint w * sint c"
    using w cr(1) by (metis mult_mono' zero_le_one mult_1 order_trans)
  then show n0: "0 < n" by (simp add: n_def)
  show h0: "0 < hh" using h by (simp add: hh_def)
  have nn: "int n = sint w * sint c" using wc by (simp add: n_def)
  have hn: "int hh = sint h" using h by (simp add: hh_def)
  have "int (hh * (1 + n)) \<le> 2 ^ 31"
    using all by (simp add: nn hn algebra_simps)
  then show tot: "hh * (1 + n) \<le> 2 ^ 31"
    by (metis of_nat_le_iff of_nat_numeral of_nat_power)
  show m: "sint (w * c) = int n"
    using row wc by (simp add: nn sint_mult_in_range)
  show a: "sint (1 + w * c) = 1 + int n"
    using row wc m sint_add_in_range [of 1 "w * c"] by (simp add: nn)
  show "size_t_of_int (w * c) = n"
    by (simp add: size_t_of_int_def m)
  show "size_t_of_int (1 + w * c) = 1 + n"
    by (simp add: size_t_of_int_def a nat_add_distrib)
  show "size_t_of_int h = hh"
    using h by (simp add: size_t_of_int_def hh_def)
  show "\<forall>y<hh. sint (of_nat y * w * c) = int (y * n)"
  proof (intro allI impI)
    fix y assume y: "y < hh"
    have "y * (1 + n) < hh * (1 + n)"
      using y by (intro mult_strict_right_mono) simp_all
    with tot have yn: "y * (1 + n) < 2 ^ 31" by simp
    have "y \<le> y * (1 + n)" "y * n \<le> y * (1 + n)" by simp_all
    with yn have y31: "y < 2 ^ 31" and yn31: "y * n < 2 ^ 31"
      by linarith+
    have sy: "sint (of_nat y :: c_int) = int y"
      using y31 by (rule sint_of_nat_small)
    have "int (y * n) < 2 ^ 31"
      using yn31 by (metis of_nat_less_iff of_nat_numeral of_nat_power)
    then have hi: "sint (of_nat y :: c_int) * sint (w * c) < 2 ^ 31"
      unfolding sy m by simp
    have "(0 :: int) \<le> int y * int n" by simp
    then have lo: "- (2 ^ 31) \<le> sint (of_nat y :: c_int) * sint (w * c)"
      unfolding sy m by (rule order_trans [rotated]) simp
    have "sint (of_nat y * (w * c)) = int y * int n"
      using sint_mult_in_range [OF lo hi] unfolding sy m .
    then show "sint (of_nat y * w * c) = int (y * n)"
      by (simp add: mult.assoc)
  qed
qed

section \<open>What the encoder writes\<close>

lemma length_store_blocks_le:
  "length (store_blocks src) \<le> length src + 5 * (length src div 65535 + 1)"
proof (induction "length src" arbitrary: src rule: less_induct)
  case less
  show ?case
  proof (cases "src = []")
    case True
    then show ?thesis by simp
  next
    case False
    show ?thesis
    proof (cases "length src \<le> 65535")
      case True
      with False have "length (store_blocks src) = 5 + length src"
        by (subst store_blocks.simps) (simp add: Let_def)
      then show ?thesis by simp
    next
      case big: False
      then have l: "length (store_blocks src) =
                    5 + 65535 + length (store_blocks (drop 65535 src))"
        using False by (subst store_blocks.simps) (simp add: Let_def)
      have "length (store_blocks (drop 65535 src)) \<le>
            length (drop 65535 src) + 5 * (length (drop 65535 src) div 65535 + 1)"
        using big by (intro less.hyps) simp
      moreover have "(length src - 65535) div 65535 + 1 = length src div 65535"
        using big le_div_geq [of 65535 "length src"] by simp
      ultimately show ?thesis
        using big l by simp
    qed
  qed
qed

text \<open>The buffer \<open>raw\<close> that \<^verbatim>\<open>png_save_internal\<close> fills: the filter byte 0 and the \<open>n\<close>
  bytes of each of the first \<open>k\<close> rows of the pixel buffer.\<close>

definition scanlines :: "nat \<Rightarrow> byte list \<Rightarrow> nat \<Rightarrow> byte list" where
  "scanlines n d k = concat (map (\<lambda>y. 0 # take n (drop (y * n) d)) [0..<k])"

lemma scanlines_Suc:
  "scanlines n d (Suc k) = scanlines n d k @ [0] @ take n (drop (k * n) d)"
  by (simp add: scanlines_def)

lemma length_scanlines:
  "k * n \<le> length d \<Longrightarrow> length (scanlines n d k) = k * (1 + n)"
proof (induction k)
  case 0
  show ?case by (simp add: scanlines_def)
next
  case (Suc k)
  then have "k * n + n \<le> length d" by simp
  then have "k * n \<le> length d" "n \<le> length d - k * n" by simp_all
  with Suc.IH show ?case
    by (simp add: scanlines_Suc min_def)
qed

text \<open>The zlib stream of stored blocks that \<^verbatim>\<open>png_deflate_store\<close> returns.\<close>

definition stored_stream :: "byte list \<Rightarrow> byte list" where
  "stored_stream raw = [0x78, 0x01] @ store_blocks raw @ be32 (png_adler32 raw)"

lemma length_stored_stream:
  "length (stored_stream raw) \<le> length raw + 5 * (length raw div 65535 + 1) + 6"
  using length_store_blocks_le [of raw] by (simp add: stored_stream_def)

lemma save_rows_scanlines:
  fixes img :: png_image
  defines "n \<equiv> nat (sint (width img) * sint (channels img))"
    and "hh \<equiv> nat (sint (height img))"
  assumes w: "1 \<le> sint (width img)" and h: "1 \<le> sint (height img)"
    and c: "channels img \<in> {1, 2, 3, 4}"
    and row: "1 + sint (width img) * sint (channels img) < 2 ^ 31"
    and all: "sint (height img) * (1 + sint (width img) * sint (channels img)) \<le> 2 ^ 31"
    and len: "length (data img) = hh * n"
    and y: "y \<le> hh"
  shows "save_rows img (1 + n) (hh * (1 + n)) y (scanlines n (data img) y) =
         Returns (scanlines n (data img) hh)"
  using y
proof (induction "hh - y" arbitrary: y)
  case 0
  then have "y = hh" by simp
  moreover have "int hh = sint (height img)" using h by (simp add: hh_def)
  ultimately show ?case
    by (subst save_rows.simps) simp
next
  case (Suc k)
  note sz = encoder_sizes [OF w h c row all, folded n_def hh_def]
  from Suc have y: "y < hh" by simp
  then have yi: "int y < sint (height img)" using h by (simp add: hh_def)
  have src: "sint (of_nat y * width img * channels img) = int (y * n)"
    using sz(9) y by blast
  have "Suc y * n \<le> hh * n" using y by (intro mult_le_mono1) simp
  then have yn: "y * n + n \<le> length (data img)" by (simp add: len)
  then have ly: "length (scanlines n (data img) y) = y * (1 + n)"
    by (intro length_scanlines) simp
  have "Suc y * (1 + n) \<le> hh * (1 + n)" using y by (intro mult_le_mono1) simp
  then have fit: "y * (1 + n) + 1 + n \<le> hh * (1 + n)" by simp
  with sz(3) have small: "y * (1 + n) < 2 ^ 64" by simp
  have "save_rows img (1 + n) (hh * (1 + n)) y (scanlines n (data img) y) =
        save_rows img (1 + n) (hh * (1 + n)) (Suc y)
          (scanlines n (data img) y @ [0] @ take n (drop (y * n) (data img)))"
    using yi small fit yn
    by (subst save_rows.simps) (simp add: Let_def sz(6) src ly del: of_nat_mult)
  also have "\<dots> = Returns (scanlines n (data img) hh)"
    using Suc.hyps(1) [of "Suc y"] Suc.hyps(2) y by (simp add: scanlines_Suc)
  finally show ?case .
qed

declare save_rows.simps [simp del]

text \<open>A file of three chunks: the IHDR of an image, one IDAT chunk and IEND, each with
  its CRC.\<close>

definition png_file :: "png_image \<Rightarrow> byte list \<Rightarrow> byte list" where
  "png_file img z =
     signature @
     chunk_bytes type_IHDR (ihdr_bytes img) (png_crc (type_IHDR @ ihdr_bytes img)) @
     chunk_bytes type_IDAT z (png_crc (type_IDAT @ z)) @
     chunk_bytes type_IEND [] (png_crc (type_IEND @ []))"

lemma png_write_chunk_bytes:
  "length p \<le> 2 ^ 40 \<Longrightarrow>
   png_write_chunk f t p = Returns (f @ chunk_bytes t p (png_crc (t @ p)))"
  by (simp add: png_write_chunk_def chunk_bytes_def malloc_ok_def)

lemma png_deflate_store_stream:
  assumes "raw \<noteq> []" "length raw \<le> 2 ^ 31"
  shows "png_deflate_store (Some raw) (length raw) = Returns (Some (stored_stream raw))"
proof -
  define total where
    "total = (2 + ((length raw + 65535 - 1) mod 2 ^ 64) div 65535 * 5 + length raw + 4) mod 2 ^ 64"
  have "((length raw + 65535 - 1) mod 2 ^ 64) div 65535 \<le> (length raw + 65535 - 1) mod 2 ^ 64"
    by (rule div_le_dividend)
  also have "\<dots> \<le> length raw + 65535 - 1"
    by (rule mod_less_eq_dividend)
  finally have nb: "((length raw + 65535 - 1) mod 2 ^ 64) div 65535 \<le> length raw + 65535 - 1" .
  have "total \<le> 2 + ((length raw + 65535 - 1) mod 2 ^ 64) div 65535 * 5 + length raw + 4"
    unfolding total_def by (rule mod_less_eq_dividend)
  also have "\<dots> \<le> 2 + (length raw + 65535 - 1) * 5 + length raw + 4"
    using nb by (intro add_mono mult_le_mono1 order_refl)
  also have "\<dots> \<le> 2 ^ 63 - 1"
    using assms(2) by simp
  finally have mk: "malloc_ok total" by (simp add: malloc_ok_def)
  have "png_deflate_store (Some raw) (length raw) =
        (if \<not> malloc_ok total then Returns None
         else if length raw = 0 then Returns (Some ([0x78, 0x01] @ be32 (png_adler32 [])))
         else if length raw < length raw then Undefined
         else Returns (Some ([0x78, 0x01] @ store_blocks (take (length raw) raw)
                                       @ be32 (png_adler32 (take (length raw) raw)))))"
    unfolding png_deflate_store_def Let_def total_def option.case ..
  then show ?thesis
    using assms(1) mk by (simp add: stored_stream_def)
qed

lemma png_save_internal_bytes:
  fixes img :: png_image
  defines "n \<equiv> nat (sint (width img) * sint (channels img))"
    and "hh \<equiv> nat (sint (height img))"
  assumes w: "1 \<le> sint (width img)" and h: "1 \<le> sint (height img)"
    and c: "channels img \<in> {1, 2, 3, 4}"
    and row: "1 + sint (width img) * sint (channels img) < 2 ^ 31"
    and all: "sint (height img) * (1 + sint (width img) * sint (channels img)) \<le> 2 ^ 31"
    and len: "length (data img) = hh * n"
  shows "png_save_internal img [] None None =
         Returns (0, png_file img (stored_stream (scanlines n (data img) hh)))"
proof -
  note sz = encoder_sizes [OF w h c row all, folded n_def hh_def]
  define raw where "raw = scanlines n (data img) hh"
  define N where "N = hh * (1 + n)"
  have lraw: "length raw = N"
    unfolding raw_def N_def by (rule length_scanlines) (simp add: len)
  have small: "N \<le> 2 ^ 31" unfolding N_def by (rule sz(3))
  have "0 < N" unfolding N_def using sz(1,2) by simp
  then have ne: "raw \<noteq> []" using lraw by auto
  have md: "(hh * (1 + n)) mod 2 ^ 64 = N" using small by (simp add: N_def)
  have mk: "malloc_ok N" using small by (simp add: malloc_ok_def)
  have rows: "save_rows img (1 + n) N 0 [] = Returns raw"
    using save_rows_scanlines [OF w h c row all, folded n_def hh_def, OF len, of 0]
    by (simp add: raw_def scanlines_def N_def)
  have st: "png_deflate_store (Some raw) N = Returns (Some (stored_stream raw))"
    using png_deflate_store_stream [OF ne] small by (simp add: lraw)
  have "length (stored_stream raw) \<le> N + 5 * (N div 65535 + 1) + 6"
    using length_stored_stream [of raw] by (simp add: lraw)
  also have "\<dots> \<le> N + 5 * (N + 1) + 6"
    by (intro add_mono mult_le_mono2 order_refl div_le_dividend)
  also have "\<dots> \<le> 2 ^ 40" using small by simp
  finally have lz: "length (stored_stream raw) \<le> 2 ^ 40" .
  have c1: "png_write_chunk ([] @ signature) type_IHDR (ihdr_bytes img) =
            Returns (signature @
              chunk_bytes type_IHDR (ihdr_bytes img) (png_crc (type_IHDR @ ihdr_bytes img)))"
    by (subst png_write_chunk_bytes) (simp_all add: ihdr_bytes_def)
  have c3: "png_write_chunk f type_IEND [] =
            Returns (f @ chunk_bytes type_IEND [] (png_crc (type_IEND @ [])))" for f
    by (rule png_write_chunk_bytes) simp
  show ?thesis
    unfolding png_save_internal_def Let_def sz(7) sz(8) md c1
    using mk rows lraw st png_write_chunk_bytes [OF lz]
    by (simp add: bind_outcome_def c3 png_file_def raw_def [symmetric])
qed

text \<open>The chunk loop on such a file.\<close>

lemma png_load_mem_file:
  assumes "length z < 2 ^ 32"
  shows "png_load_mem (png_file img z) =
         finish_load \<lparr>ihdr_width = width img, ihdr_height = height img,
                      color_type = (if channels img = 4 then 6 else if channels img = 3 then 2
                                    else if channels img = 2 then 4 else 0),
                      idat_data = Some z\<rparr>"
proof -
  let ?ct = "if channels img = 4 then 6 else if channels img = 3 then 2
             else if channels img = 2 then 4 else 0 :: byte"
  have ih: "ihdr_bytes img = be32 (width img) @ be32 (height img) @ 8 # ?ct # 0 # 0 # 0 # []"
    by (simp add: ihdr_bytes_def)
  have e1: "chunk_effect type_IHDR (ihdr_bytes img) no_chunks =
            Some (no_chunks\<lparr>ihdr_width := width img, ihdr_height := height img,
                            color_type := ?ct\<rparr>)"
    unfolding ih by (rule ihdr_effect)
  have ne: "type_IDAT \<noteq> type_IHDR" "type_IEND \<noteq> type_IHDR" "type_IEND \<noteq> type_IDAT"
    by (simp_all add: type_IDAT_def type_IHDR_def type_IEND_def)
  have l1: "length (ihdr_bytes img) < 2 ^ 32" by (simp add: ihdr_bytes_def)
  have l3: "length ([] :: byte list) < 2 ^ 32" by simp
  let ?st1 = "no_chunks\<lparr>ihdr_width := width img, ihdr_height := height img,
                        color_type := ?ct\<rparr>"
  have e2: "chunk_effect type_IDAT z ?st1 = Some (?st1\<lparr>idat_data := Some z\<rparr>)"
    by (simp add: chunk_effect_def ne no_chunks_def)
  have e3: "chunk_effect type_IEND [] st = None" for st
    by (simp add: chunk_effect_def ne)
  have r3: "read_chunks (chunk_bytes type_IEND [] crc3 @ []) 0 st = st" for st crc3
    using read_chunks_chunk [OF _ l3, of type_IEND crc3 "[]" st] by (simp add: e3)
  have r2: "read_chunks (chunk_bytes type_IDAT z crc2 @ chunk_bytes type_IEND [] crc3 @ []) 0 ?st1 =
            ?st1\<lparr>idat_data := Some z\<rparr>" for crc2 crc3
    using read_chunks_chunk [OF _ assms, of type_IDAT crc2 "chunk_bytes type_IEND [] crc3 @ []" ?st1]
    by (simp only: length_types e2 option.case r3)
  have r1: "read_chunks (chunk_bytes type_IHDR (ihdr_bytes img) crc1 @
                         chunk_bytes type_IDAT z crc2 @ chunk_bytes type_IEND [] crc3 @ []) 0 no_chunks =
            ?st1\<lparr>idat_data := Some z\<rparr>" for crc1 crc2 crc3
    using read_chunks_chunk [OF _ l1, of type_IHDR crc1
        "chunk_bytes type_IDAT z crc2 @ chunk_bytes type_IEND [] crc3 @ []" no_chunks]
    by (simp only: length_types e1 option.case r2)
  have "png_load_mem (png_file img z) = finish_load (?st1\<lparr>idat_data := Some z\<rparr>)"
    unfolding png_file_def png_load_mem_signature
    using r1 [of "png_crc (type_IHDR @ ihdr_bytes img)" "png_crc (type_IDAT @ z)"
        "png_crc (type_IEND @ [])"]
    by simp
  then show ?thesis
    by (simp add: no_chunks_def)
qed

section \<open>Encoding and decoding an image\<close>

lemma png_inflate_zlib_refused:
  "\<not> malloc_ok n \<Longrightarrow> png_inflate_zlib z n = None"
  by (auto simp: png_inflate_zlib_def Let_def)

text \<open>A grayscale image one pixel wide and \<open>2 ^ 30\<close> pixels high, all of them black, and a
  file system that holds no file and lets every path be written.\<close>

definition tall_image :: png_image where
  "tall_image = \<lparr>width = 1, height = 0x40000000, channels = 1, data = replicate 1073741824 0\<rparr>"

definition tall_image_file :: "byte list" where
  "tall_image_file = png_file tall_image (stored_stream (scanlines 1 (data tall_image) 1073741824))"

definition writable_fs :: filesystem where
  "writable_fs = \<lparr>files = Map.empty, can_write = (\<lambda>p. True)\<rparr>"

lemma tall_image_saved:
  "png_save_internal tall_image [] None None = Returns (0, tall_image_file)"
proof -
  have "png_save_internal tall_image [] None None =
        Returns (0, png_file tall_image
          (stored_stream (scanlines (nat (sint (width tall_image) * sint (channels tall_image)))
             (data tall_image) (nat (sint (height tall_image))))))"
    by (rule png_save_internal_bytes) (simp_all add: tall_image_def)
  then show ?thesis
    by (simp add: tall_image_file_def) (simp add: tall_image_def)
qed

lemma tall_image_refused:
  "png_load_mem tall_image_file = Returns None"
proof -
  have "length (scanlines 1 (data tall_image) 1073741824) = 1073741824 * (1 + 1)"
    by (rule length_scanlines) (simp add: tall_image_def)
  then have l: "length (scanlines 1 (data tall_image) 1073741824) = 2147483648"
    by simp
  have "length (stored_stream (scanlines 1 (data tall_image) 1073741824)) \<le>
        2147483648 + 5 * (2147483648 div 65535 + 1) + 6"
    using length_stored_stream [of "scanlines 1 (data tall_image) 1073741824"]
    unfolding l .
  also have "\<dots> < 2 ^ 32" by simp
  finally have lz: "length (stored_stream (scanlines 1 (data tall_image) 1073741824)) < 2 ^ 32" .
  have m: "\<not> malloc_ok (size_t_of_int (0x40000000 * (1 + 1 * 1)))"
    by (simp add: malloc_ok_def size_t_of_int_def)
  show ?thesis
    unfolding tall_image_file_def png_load_mem_file [OF lz]
    using m by (simp add: finish_load_def tall_image_def Let_def png_inflate_zlib_refused)
qed

text \<open>
  C1 fails at this image. It has the width 1, the height \<open>2 ^ 30\<close>, one channel and a pixel
  buffer of \<open>2 ^ 30\<close> bytes; \<^verbatim>\<open>png_save\<close> returns 0 and writes a file of three chunks, whose
  IDAT holds the \<open>2 ^ 31\<close> bytes of the filtered rows in stored blocks (the encoder
  computes this size in \<^verbatim>\<open>size_t\<close>); \<^verbatim>\<open>png_load\<close> of that file returns null, because the
  decoder computes the same size, \<^verbatim>\<open>height * (1 + width * channels)\<close>, in \<^verbatim>\<open>int\<close>, where it
  overflows, and \<^verbatim>\<open>png_inflate_zlib\<close> cannot allocate the size that results.
\<close>

theorem round_trip_fails_tall_image:
  "sint (width tall_image) = 1 \<and> sint (height tall_image) = 1073741824 \<and>
   channels tall_image = 1 \<and> length (data tall_image) = 1 * 1073741824 * 1 \<and>
   png_save_internal tall_image [] None None = Returns (0, tall_image_file) \<and>
   png_load_mem tall_image_file = Returns None \<and>
   png_save (Some tall_image) (Some ''tall.png'') writable_fs =
     Returns (0, writable_fs\<lparr>files := [''tall.png'' \<mapsto> tall_image_file]\<rparr>) \<and>
   png_load ''tall.png'' (writable_fs\<lparr>files := [''tall.png'' \<mapsto> tall_image_file]\<rparr>) =
     Returns None"
proof -
  have d: "sint (width tall_image) = 1" "sint (height tall_image) = 1073741824"
    "channels tall_image = 1" "length (data tall_image) = 1 * 1073741824 * 1"
    by (simp_all add: tall_image_def)
  have s: "png_save (Some tall_image) (Some ''tall.png'') writable_fs =
     Returns (0, writable_fs\<lparr>files := [''tall.png'' \<mapsto> tall_image_file]\<rparr>)"
    by (simp add: png_save_def tall_image_saved bind_outcome_def writable_fs_def)
  have l: "png_load ''tall.png'' (writable_fs\<lparr>files := [''tall.png'' \<mapsto> tall_image_file]\<rparr>) =
     Returns None"
    by (simp add: png_load_def tall_image_refused)
  from d s l tall_image_saved tall_image_refused show ?thesis
    by (intro conjI)
qed

text \<open>The sizes as the arithmetic of the decoder computes them, for an image whose
  filtered rows take fewer than \<open>2 ^ 31\<close> bytes.\<close>

lemma decoder_sizes:
  fixes w h c :: c_int
  assumes w: "1 \<le> sint w" and h: "1 \<le> sint h" and c: "c \<in> {1, 2, 3, 4}"
    and all: "sint h * (1 + sint w * sint c) < 2 ^ 31"
  defines "n \<equiv> nat (sint w * sint c)" and "hh \<equiv> nat (sint h)"
  shows "1 + sint w * sint c < 2 ^ 31"
    "size_t_of_int (h * (1 + w * c)) = hh * (1 + n)"
    "size_t_of_int (w * h * c) = hh * n"
    "\<forall>y<hh. sint (of_nat y * (1 + w * c)) = int (y * (1 + n))"
proof -
  note cr = channels_range [OF c]
  have wc: "1 \<le> sint w * sint c"
    using w cr(1) by (metis mult_mono' zero_le_one mult_1 order_trans)
  have "1 * (1 + sint w * sint c) \<le> sint h * (1 + sint w * sint c)"
    using h wc by (intro mult_right_mono) simp_all
  with all show row: "1 + sint w * sint c < 2 ^ 31" by simp
  from all have all': "sint h * (1 + sint w * sint c) \<le> 2 ^ 31" by simp
  note sz = encoder_sizes [OF w h c row all', folded n_def hh_def]
  have nn: "int n = sint w * sint c" using wc by (simp add: n_def)
  have hn: "int hh = sint h" using h by (simp add: hh_def)
  have tot: "int (hh * (1 + n)) < 2 ^ 31"
    using all by (simp add: nn hn algebra_simps)
  have "0 \<le> sint h * (1 + sint w * sint c)"
    by (rule mult_nonneg_nonneg) (use h wc in simp_all)
  then have "- (2 ^ 31) \<le> sint h * (1 + sint w * sint c)"
    by (rule order_trans [rotated]) simp
  then have "sint (h * (1 + w * c)) = sint h * sint (1 + w * c)"
    using all by (intro sint_mult_in_range) (simp_all add: sz(5) nn)
  also have "\<dots> = int hh * (1 + int n)"
    unfolding sz(5) hn ..
  also have "\<dots> = int (hh * (1 + n))" by (simp add: distrib_left)
  finally have "sint (h * (1 + w * c)) = int (hh * (1 + n))" .
  then show "size_t_of_int (h * (1 + w * c)) = hh * (1 + n)"
    by (simp add: size_t_of_int_def del: of_nat_mult of_nat_add)
  have "int (hh * n) \<le> int (hh * (1 + n))" by simp
  with tot have hn31: "int hh * int n < 2 ^ 31" by simp
  have "int hh * int n = (sint w * sint h) * sint c"
    by (simp add: nn hn)
  with hn31 have whc: "(sint w * sint h) * sint c < 2 ^ 31" by simp
  have wh0: "0 \<le> sint w * sint h" by (rule mult_nonneg_nonneg) (use w h in simp_all)
  have "sint w * sint h * 1 \<le> sint w * sint h * sint c"
    using wh0 cr(1) by (intro mult_left_mono) simp_all
  with whc have wh31: "sint w * sint h < 2 ^ 31" by simp
  have "- (2 ^ 31) \<le> sint w * sint h"
    using wh0 by (rule order_trans [rotated]) simp
  then have swh: "sint (w * h) = sint w * sint h"
    using wh31 by (intro sint_mult_in_range) simp_all
  have "0 \<le> sint w * sint h * sint c"
    by (rule mult_nonneg_nonneg) (use wh0 cr(1) in simp_all)
  then have "- (2 ^ 31) \<le> sint w * sint h * sint c"
    by (rule order_trans [rotated]) simp
  then have "sint (w * h * c) = sint (w * h) * sint c"
    using whc by (intro sint_mult_in_range) (simp_all add: swh)
  also have "\<dots> = int hh * int n"
    unfolding swh nn hn by (simp add: mult_ac)
  also have "\<dots> = int (hh * n)" by simp
  finally have "sint (w * h * c) = int (hh * n)" .
  then show "size_t_of_int (w * h * c) = hh * n"
    by (simp add: size_t_of_int_def del: of_nat_mult)
  show "\<forall>y<hh. sint (of_nat y * (1 + w * c)) = int (y * (1 + n))"
  proof (intro allI impI)
    fix y assume y: "y < hh"
    have "y * (1 + n) < hh * (1 + n)"
      using y by (intro mult_strict_right_mono) simp_all
    then have "int (y * (1 + n)) < int (hh * (1 + n))"
      by (simp only: of_nat_less_iff)
    with tot have yn: "int (y * (1 + n)) < 2 ^ 31" by simp
    have "y \<le> y * (1 + n)" by simp
    then have "int y \<le> int (y * (1 + n))" by (simp only: of_nat_le_iff)
    with yn have "int y < 2 ^ 31" by linarith
    then have "y < 2 ^ 31"
      by (metis of_nat_less_iff of_nat_numeral of_nat_power)
    then have sy: "sint (of_nat y :: c_int) = int y"
      by (rule sint_of_nat_small)
    have hi: "sint (of_nat y :: c_int) * sint (1 + w * c) < 2 ^ 31"
      unfolding sy sz(5) using yn by (simp add: distrib_left)
    have "(0 :: int) \<le> int y * (1 + int n)" by simp
    then have lo: "- (2 ^ 31) \<le> sint (of_nat y :: c_int) * sint (1 + w * c)"
      unfolding sy sz(5) by (rule order_trans [rotated]) simp
    show "sint (of_nat y * (1 + w * c)) = int (y * (1 + n))"
      using sint_mult_in_range [OF lo hi] unfolding sy sz(5) by (simp add: distrib_left)
  qed
qed

text \<open>Row \<open>y\<close> of the filtered rows: its filter byte and its bytes.\<close>

lemma scanlines_row:
  assumes "y < k" "k * n \<le> length d"
  shows "scanlines n d k ! (y * (1 + n)) = 0"
    and "take n (drop (y * (1 + n) + 1) (scanlines n d k)) = take n (drop (y * n) d)"
proof -
  have "[0..<k] = [0..<y] @ y # [Suc y..<k]"
    using assms(1) by (metis upt_conv_Cons upt_add_eq_append le0 less_imp_le_nat
        ordered_cancel_comm_monoid_diff_class.add_diff_inverse plus_nat.add_0)
  then have s: "scanlines n d k =
                scanlines n d y @ (0 # take n (drop (y * n) d)) @
                concat (map (\<lambda>y. 0 # take n (drop (y * n) d)) [Suc y..<k])"
    by (simp add: scanlines_def)
  have "Suc y * n \<le> k * n" using assms(1) by (intro mult_le_mono1) simp
  with assms(2) have yn: "y * n + n \<le> length d" by simp
  then have l: "length (scanlines n d y) = y * (1 + n)"
    by (intro length_scanlines) simp
  have lr: "length (take n (drop (y * n) d)) = n"
    using yn by simp
  show "scanlines n d k ! (y * (1 + n)) = 0"
    unfolding s using l by (simp add: nth_append)
  show "take n (drop (y * (1 + n) + 1) (scanlines n d k)) = take n (drop (y * n) d)"
    unfolding s using l lr by simp
qed

lemma take_two_parts:
  "length a = k \<Longrightarrow> length r = n \<Longrightarrow> take (k + n) (a @ r @ rest) = a @ r"
  by simp

lemma load_rows_scanlines:
  fixes w h c :: c_int and d :: "byte list"
  defines "n \<equiv> nat (sint w * sint c)" and "hh \<equiv> nat (sint h)"
  assumes w: "1 \<le> sint w" and h: "1 \<le> sint h" and c: "c \<in> {1, 2, 3, 4}"
    and all: "sint h * (1 + sint w * sint c) < 2 ^ 31"
    and len: "length d = hh * n"
    and y: "y \<le> hh"
    and lp: "length pixels = hh * n"
    and tk: "take (y * n) pixels = take (y * n) d"
  shows "load_rows w h c (1 + w * c) y prev (scanlines n d hh) pixels = Returns d"
  using y lp tk
proof (induction "hh - y" arbitrary: y pixels prev)
  case 0
  then have "y = hh" by simp
  moreover have "int hh = sint h" using h by (simp add: hh_def)
  moreover have "pixels = d"
    using 0(4) \<open>y = hh\<close> 0(3) len by simp
  ultimately show ?case
    by (subst load_rows.simps) simp
next
  case (Suc k)
  note ds = decoder_sizes [OF w h c all, folded n_def hh_def]
  from all have all': "sint h * (1 + sint w * sint c) \<le> 2 ^ 31" by simp
  note sz = encoder_sizes [OF w h c ds(1) all', folded n_def hh_def]
  define raw where "raw = scanlines n d hh"
  from Suc have y: "y < hh" by simp
  then have yi: "int y < sint h" using h by (simp add: hh_def)
  have lraw: "length raw = hh * (1 + n)"
    unfolding raw_def by (rule length_scanlines) (simp add: len)
  have off: "sint (of_nat y * (1 + w * c)) = int (y * (1 + n))"
    using ds(4) y by blast
  have dst: "sint (of_nat y * w * c) = int (y * n)"
    using sz(9) y by blast
  have "Suc y * (1 + n) \<le> hh * (1 + n)" using y by (intro mult_le_mono1) simp
  then have fit: "y * (1 + n) + 1 + n \<le> length raw" by (simp add: lraw)
  have "Suc y * n \<le> hh * n" using y by (intro mult_le_mono1) simp
  then have fitp: "y * n + n \<le> hh * n" by simp
  have f0: "raw ! (y * (1 + n)) = 0"
    unfolding raw_def using y by (rule scanlines_row) (simp add: len)
  have row: "take n (drop (y * (1 + n) + 1) raw) = take n (drop (y * n) d)"
    unfolding raw_def using y by (rule scanlines_row) (simp add: len)
  have same: "take (y * (1 + n) + 1) raw @ take n (drop (y * n) d) @
              drop (y * (1 + n) + 1 + n) raw = raw"
    unfolding row [symmetric]
    by (metis append_take_drop_id drop_drop add.commute)
  define pixels' where
    "pixels' = take (y * n) pixels @ take n (drop (y * n) d) @ drop (y * n + n) pixels"
  have lr: "length (take n (drop (y * n) d)) = n"
    using fitp by (simp add: len)
  have lp': "length pixels' = hh * n"
    using fitp Suc.prems(2) lr by (simp add: pixels'_def)
  have la: "length (take (y * n) pixels) = y * n"
    using fitp Suc.prems(2) by simp
  have "take (y * n + n) pixels' = take (y * n) pixels @ take n (drop (y * n) d)"
    unfolding pixels'_def using la lr by (rule take_two_parts)
  also have "\<dots> = take (y * n) d @ take n (drop (y * n) d)"
    by (simp add: Suc.prems(3))
  also have "\<dots> = take (y * n + n) d"
    by (simp add: take_add)
  finally have tk': "take (Suc y * n) pixels' = take (Suc y * n) d"
    by (simp add: add.commute)
  have unf: "png_unfilter_row r p 0 w c = r" for r p
    by (simp add: png_unfilter_row_def)
  have "load_rows w h c (1 + w * c) y prev raw pixels =
        load_rows w h c (1 + w * c) (Suc y) (Some (y * (1 + n) + 1)) raw pixels'"
    using yi fit fitp Suc.prems(2) f0 row same
    by (subst load_rows.simps)
       (simp add: Let_def off dst sz(6) unf pixels'_def del: of_nat_mult of_nat_add)
  also have "\<dots> = Returns d"
    unfolding raw_def using Suc.hyps(2) y lp' tk'
    by (intro Suc.hyps(1)) simp_all
  finally show ?case by (simp add: raw_def)
qed

text \<open>
  Below that size the round trip holds. For every image with width and height at least
  1, one to four channels, a pixel buffer of \<open>width * height * channels\<close> bytes, and
  filtered rows of fewer than \<open>2 ^ 31\<close> bytes, \<^verbatim>\<open>png_save\<close> writes a file to a path that can
  be written and returns 0, and \<^verbatim>\<open>png_load\<close> of that file returns the image: the same
  width, height, channels and pixel bytes.
\<close>

theorem round_trip_in_range:
  assumes w: "1 \<le> sint (width img)" and h: "1 \<le> sint (height img)"
    and c: "channels img \<in> {1, 2, 3, 4}"
    and len: "int (length (data img)) =
              sint (width img) * sint (height img) * sint (channels img)"
    and all: "sint (height img) * (1 + sint (width img) * sint (channels img)) < 2 ^ 31"
    and p: "can_write fs p"
  shows "\<exists>bytes. png_save_internal img [] None None = Returns (0, bytes) \<and>
                 png_load_mem bytes = Returns (Some img) \<and>
                 png_save (Some img) (Some p) fs =
                   Returns (0, fs\<lparr>files := (files fs)(p \<mapsto> bytes)\<rparr>) \<and>
                 png_load p (fs\<lparr>files := (files fs)(p \<mapsto> bytes)\<rparr>) = Returns (Some img)"
proof -
  define n where "n = nat (sint (width img) * sint (channels img))"
  define hh where "hh = nat (sint (height img))"
  define raw where "raw = scanlines n (data img) hh"
  define z where "z = stored_stream raw"
  note ds = decoder_sizes [OF w h c all, folded n_def hh_def]
  from all have all': "sint (height img) * (1 + sint (width img) * sint (channels img)) \<le> 2 ^ 31"
    by simp
  note sz = encoder_sizes [OF w h c ds(1) all', folded n_def hh_def]
  note cr = channels_range [OF c]
  have wc: "0 \<le> sint (width img) * sint (channels img)"
    by (rule mult_nonneg_nonneg) (use w cr(1) in simp_all)
  have "int (hh * n) = sint (height img) * (sint (width img) * sint (channels img))"
    using h wc by (simp add: hh_def n_def)
  also have "\<dots> = int (length (data img))"
    by (simp add: len mult_ac)
  finally have ld: "length (data img) = hh * n"
    by (simp only: of_nat_eq_iff)
  have lraw: "length raw = hh * (1 + n)"
    unfolding raw_def by (rule length_scanlines) (simp add: ld)
  have small: "hh * (1 + n) \<le> 2 ^ 31" by (rule sz(3))
  have "0 < hh * (1 + n)" using sz(1,2) by simp
  then have ne: "raw \<noteq> []" using lraw by auto
  have save: "png_save_internal img [] None None = Returns (0, png_file img z)"
    unfolding z_def raw_def n_def hh_def
    by (rule png_save_internal_bytes [OF w h c ds(1) all']) (simp add: ld n_def hh_def)
  have "length z \<le> hh * (1 + n) + 5 * (hh * (1 + n) div 65535 + 1) + 6"
    using length_stored_stream [of raw] by (simp add: z_def lraw)
  also have "\<dots> \<le> 2 ^ 31 + 5 * (2 ^ 31 div 65535 + 1) + 6"
    using small by (intro add_mono mult_le_mono2 div_le_mono order_refl)
  also have "\<dots> < 2 ^ 32" by simp
  finally have lz: "length z < 2 ^ 32" .
  have mk: "malloc_ok (length raw)"
    using small by (simp add: lraw malloc_ok_def)
  have inf: "png_inflate_zlib z (hh * (1 + n)) = Some raw"
    using inflate_deflate_store [OF ne mk] by (simp add: z_def stored_stream_def lraw)
  have "hh * n \<le> hh * (1 + n)" by simp
  with small have mk2: "malloc_ok (hh * n)" by (simp add: malloc_ok_def)
  have cre: "png_create (width img) (height img) (channels img) =
             Some \<lparr>width = width img, height = height img, channels = channels img,
                   data = replicate (hh * n) 0\<rparr>"
    using mk2 by (simp add: png_create_def ds(3))
  have rows: "load_rows (width img) (height img) (channels img)
                (1 + width img * channels img) 0 None raw (replicate (hh * n) 0) =
              Returns (data img)"
    unfolding raw_def n_def hh_def
    by (rule load_rows_scanlines [OF w h c all]) (simp_all add: ld n_def hh_def)
  have ct: "(if (if channels img = 4 then 6 else if channels img = 3 then 2
                 else if channels img = 2 then 4 else 0 :: byte) = 0 then Some 1
             else if (if channels img = 4 then 6 else if channels img = 3 then 2
                 else if channels img = 2 then 4 else 0 :: byte) = 2 then Some 3
             else if (if channels img = 4 then 6 else if channels img = 3 then 2
                 else if channels img = 2 then 4 else 0 :: byte) = 4 then Some 2
             else if (if channels img = 4 then 6 else if channels img = 3 then 2
                 else if channels img = 2 then 4 else 0 :: byte) = 6 then Some 4
             else None) = Some (channels img)"
    using c by auto
  have wz: "width img \<noteq> 0" "height img \<noteq> 0"
    using w h by auto
  have "finish_load \<lparr>ihdr_width = width img, ihdr_height = height img,
                      color_type = (if channels img = 4 then 6 else if channels img = 3 then 2
                                    else if channels img = 2 then 4 else 0),
                      idat_data = Some z\<rparr> = Returns (Some img)"
    unfolding finish_load_def Let_def
    by (simp only: chunks.simps ct option.case wz simp_thms if_False ds(2) inf cre
        png_image.simps rows bind_outcome_def outcome.case)
       simp
  then have load: "png_load_mem (png_file img z) = Returns (Some img)"
    by (simp only: png_load_mem_file [OF lz])
  have s: "png_save (Some img) (Some p) fs =
           Returns (0, fs\<lparr>files := (files fs)(p \<mapsto> png_file img z)\<rparr>)"
    using p by (simp add: png_save_def save bind_outcome_def)
  have l: "png_load p (fs\<lparr>files := (files fs)(p \<mapsto> png_file img z)\<rparr>) = Returns (Some img)"
    by (simp add: png_load_def load)
  from save load s l show ?thesis by blast
qed

text \<open>The image of 3 by 2 pixels with four channels and the bytes 0 to 23.\<close>

definition rgba_image :: png_image where
  "rgba_image = \<lparr>width = 3, height = 2, channels = 4,
                  data = [0, 1, 2, 3, 4, 5, 6, 7, 8, 9, 10, 11,
                          12, 13, 14, 15, 16, 17, 18, 19, 20, 21, 22, 23]\<rparr>"

theorem round_trip_rgba_image:
  "\<exists>bytes. png_save (Some rgba_image) (Some ''rgba.png'') writable_fs =
                   Returns (0, writable_fs\<lparr>files := [''rgba.png'' \<mapsto> bytes]\<rparr>) \<and>
                 png_load ''rgba.png'' (writable_fs\<lparr>files := [''rgba.png'' \<mapsto> bytes]\<rparr>) =
                   Returns (Some rgba_image)"
  using round_trip_in_range [of rgba_image writable_fs "''rgba.png''"]
  by (simp add: rgba_image_def writable_fs_def) blast

end
